theory Spec2Isabelle
  imports Main "HOL-Library.Word"
begin

section \<open>The format scanner of messageobj.c\<close>

text \<open>
  This theory embeds \<^verbatim>\<open>src/messageobj.c\<close> of tidy-html5: the format scanner
  \<^verbatim>\<open>BuildArgArray\<close>, the message constructor \<^verbatim>\<open>tidyMessageCreateInitV\<close> and the
  argument getters. C pointers into the format string are offsets into a \<open>string\<close>;
  the terminating NUL sits at offset \<open>length fmt\<close>, one element past it is outside
  the object. Everything C leaves undefined (a read outside an object, \<^verbatim>\<open>va_arg\<close> on
  a missing or ill-typed argument, reading a union member that was not stored) and
  every failed \<^verbatim>\<open>assert\<close> is a value of type \<open>fault\<close>, returned on the left of a sum.
\<close>

subsection \<open>Platform, faults, kinds\<close>

text \<open>
  The compile-time facts the code branches on: \<^verbatim>\<open>sizeof(int)\<close>,
  \<^verbatim>\<open>sizeof(size_t)\<close>, \<^verbatim>\<open>sizeof(void *)\<close> (in bytes) and whether \<^verbatim>\<open>WIN32\<close> is defined.
\<close>

record platform =
  sizeof_int :: nat
  sizeof_size_t :: nat
  sizeof_voidp :: nat
  WIN32 :: bool

datatype fault =
    ReadPastEnd        \<comment> \<open>a character read beyond the terminating NUL of the format\<close>
  | IndexOutOfRange    \<comment> \<open>an element access outside the \<^verbatim>\<open>printfArg\<close> array\<close>
  | BadVaArg           \<comment> \<open>\<^verbatim>\<open>va_arg\<close> with no argument left, or one of another class\<close>
  | WrongUnionMember   \<comment> \<open>reading a member of \<^verbatim>\<open>u\<close> other than the one stored\<close>
  | NullDereference
  | AssertionFailed

text \<open>
  \<^verbatim>\<open>TidyFormatParameterType\<close> is declared in tidyenum.h, which is not part of the
  sources at hand; the constructors are the enumerators that messageobj.c names
  (\<^verbatim>\<open>TYPE_WSTRING\<close> of the \<^verbatim>\<open>WIN32\<close> branch is taken to be the wide-string kind).
\<close>

datatype TidyFormatParameterType =
    tidyFormatType_INT16
  | tidyFormatType_UINT16
  | tidyFormatType_INTN
  | tidyFormatType_UINTN
  | tidyFormatType_INT32
  | tidyFormatType_UINT32
  | tidyFormatType_INT64
  | tidyFormatType_UINT64
  | tidyFormatType_STRING
  | tidyFormatType_WSTRING
  | tidyFormatType_INTSTR
  | tidyFormatType_DOUBLE
  | tidyFormatType_UNKNOWN

subsection \<open>Machine integers and the argument union\<close>

text \<open>
  Integer values are mathematical integers with the conversions of the C code written
  out: \<open>to_signed w\<close> and \<open>to_unsigned w\<close> reduce to \<open>w\<close> bits (two's complement).
  The counters \<^verbatim>\<open>number\<close>, \<^verbatim>\<open>cn\<close>, \<^verbatim>\<open>pos\<close> of the scanner are bounded by the length
  of the format string plus one and are not reduced.
\<close>

definition to_unsigned :: "nat \<Rightarrow> int \<Rightarrow> int" where
  "to_unsigned w v = v mod 2 ^ w"

definition to_signed :: "nat \<Rightarrow> int \<Rightarrow> int" where
  "to_signed w v = (v + 2 ^ (w - 1)) mod 2 ^ w - 2 ^ (w - 1)"

definition int_bits :: "platform \<Rightarrow> nat" where
  "int_bits plat = 8 * sizeof_int plat"

definition INT_MAX :: "platform \<Rightarrow> int" where
  "INT_MAX plat = 2 ^ (int_bits plat - 1) - 1"

text \<open>
  One caller-supplied variadic argument, by class: an integer (of the width the
  matching \<^verbatim>\<open>va_arg\<close> asks for), a double (its 64-bit pattern), a \<^verbatim>\<open>char *\<close>
  (the string it points to), a \<^verbatim>\<open>size_t *\<close> (an address), a \<^verbatim>\<open>WCHAR *\<close>.
\<close>

datatype c_value =
    V_integer int
  | V_double "64 word"
  | V_charp string
  | V_size_tp nat
  | V_wcharp "nat list"

type_synonym va_list = "c_value list"

text \<open>The union \<^verbatim>\<open>u\<close> of \<^verbatim>\<open>struct printfArg\<close>, tagged by the member last stored.\<close>

datatype arg_union =
    U_none
  | U_i int
  | U_ui int
  | U_i32 int
  | U_ui32 int
  | U_ll int
  | U_ull int
  | U_d "64 word"
  | U_s string
  | U_ip nat
  | U_ws "nat list"

text \<open>
  \<^verbatim>\<open>struct printfArg\<close>. The member \<^verbatim>\<open>format\<close> is an array of \<^verbatim>\<open>FORMAT_LENGTH\<close>
  characters inside a block that \<^verbatim>\<open>TidyDocAlloc\<close> hands out uncleared; the field
  \<open>format\<close> holds the bytes stored into it so far, from its start. The bytes of the
  array behind them have never been written.
\<close>

record printfArg =
  type :: TidyFormatParameterType
  formatStart :: int
  formatLength :: int
  format :: string
  u :: arg_union

definition FORMAT_LENGTH :: int where
  "FORMAT_LENGTH = 21"

subsection \<open>Reading the format string\<close>

definition NUL :: char where
  "NUL = CHR 0x00"

text \<open>\<^verbatim>\<open>*p\<close> for \<open>p = fmt + i\<close>: defined up to and including the terminator.\<close>

definition deref :: "string \<Rightarrow> nat \<Rightarrow> fault + char" where
  "deref fmt i =
     (if i < length fmt then Inr (fmt ! i)
      else if i = length fmt then Inr NUL
      else Inl ReadPastEnd)"

text \<open>\<^verbatim>\<open>(c >= '0') && (c <= '9')\<close>\<close>

definition is_digit :: "char \<Rightarrow> bool" where
  "is_digit c = (48 \<le> (of_char c :: nat) \<and> (of_char c :: nat) \<le> 57)"

subsection \<open>First pass: counting\<close>

text \<open>
  \<^verbatim>\<open>while ((c = *p++) != 0) { if (c != '%') continue;
      if ((c = *p++) == '%') continue; else number++; }\<close>

  \<open>count_step\<close> is one evaluation of the loop condition followed by the body, from
  the read position \<open>p\<close> and the counter \<open>number\<close>: \<open>None\<close> when the condition
  fails (the terminator was read), otherwise the read position and the counter with
  which the condition is evaluated next. \<open>count_loop\<close> is the loop; it yields
  \<open>number\<close> at the exit.
\<close>

definition count_step :: "string \<Rightarrow> nat \<Rightarrow> int \<Rightarrow> fault + (nat \<times> int) option" where
  "count_step fmt p number =
     (case deref fmt p of
        Inl e \<Rightarrow> Inl e
      | Inr c \<Rightarrow>
          if c = NUL then Inr None
          else if c \<noteq> CHR ''%'' then Inr (Some (p + 1, number))
          else (case deref fmt (p + 1) of
                  Inl e \<Rightarrow> Inl e
                | Inr c' \<Rightarrow>
                    if c' = CHR ''%'' then Inr (Some (p + 2, number))
                    else Inr (Some (p + 2, number + 1))))"

function count_loop :: "string \<Rightarrow> nat \<Rightarrow> int \<Rightarrow> fault + int" where
  "count_loop fmt p number =
     (case count_step fmt p number of
        Inl e \<Rightarrow> Inl e
      | Inr None \<Rightarrow> Inr number
      | Inr (Some (p', number')) \<Rightarrow> count_loop fmt p' number')"
  by pat_completeness auto
termination
  by (relation "measure (\<lambda>(fmt, p, number). length fmt + 2 - p)")
     (auto simp: count_step_def deref_def split: if_splits sum.splits)

declare count_loop.simps [simp del]

text \<open>
  The read position and the counter of the first loop after \<open>n\<close> rounds (\<open>None\<close>
  when the loop has ended before).
\<close>

fun count_iter :: "nat \<Rightarrow> string \<Rightarrow> nat \<Rightarrow> int \<Rightarrow> fault + (nat \<times> int) option" where
  "count_iter 0 fmt p number = Inr (Some (p, number))"
| "count_iter (Suc n) fmt p number =
     (case count_step fmt p number of
        Inl e \<Rightarrow> Inl e
      | Inr None \<Rightarrow> Inr None
      | Inr (Some (p', number')) \<Rightarrow> count_iter n fmt p' number')"

subsection \<open>Second pass: classification\<close>

text \<open>\<^verbatim>\<open>while ((c >= '0') && (c <= '9')) { c = *p++; }\<close>\<close>

function skip_digits :: "string \<Rightarrow> nat \<Rightarrow> char \<Rightarrow> fault + (char \<times> nat)" where
  "skip_digits fmt p c =
     (if is_digit c
      then (case deref fmt p of
              Inl e \<Rightarrow> Inl e
            | Inr c' \<Rightarrow> skip_digits fmt (p + 1) c')
      else Inr (c, p))"
  by pat_completeness auto
termination
  by (relation "measure (\<lambda>(fmt, p, c). length fmt + 2 - p)")
     (auto simp: deref_def split: if_splits)

declare skip_digits.simps [simp del]

text \<open>
  The precision: \<^verbatim>\<open>if (c == '.') { c = *p++; if (c == '*') { *rv = -1; break; }
  while (digit) c = *p++; }\<close>. The result \<open>None\<close> is the \<^verbatim>\<open>break\<close>.
\<close>

definition read_precision :: "string \<Rightarrow> nat \<Rightarrow> char \<Rightarrow> fault + (char \<times> nat) option" where
  "read_precision fmt p c =
     (if c = CHR ''.''
      then (case deref fmt p of
              Inl e \<Rightarrow> Inl e
            | Inr c' \<Rightarrow>
                if c' = CHR ''*'' then Inr None
                else (case skip_digits fmt (p + 1) c' of
                        Inl e \<Rightarrow> Inl e
                      | Inr r \<Rightarrow> Inr (Some r)))
      else Inr (Some (c, p)))"

text \<open>
  The size: \<^verbatim>\<open>nas[cn].type = tidyFormatType_INTN; if (c == 'h') ... else if (c == 'L') ...
  else if (c == 'l') ... else if (c == 'z') ...\<close>; yields the type selected, the
  current character and the read position.
\<close>

definition read_size ::
  "platform \<Rightarrow> string \<Rightarrow> nat \<Rightarrow> char \<Rightarrow> fault + (TidyFormatParameterType \<times> char \<times> nat)" where
  "read_size plat fmt p c =
     (if c = CHR ''h''
      then (case deref fmt p of
              Inl e \<Rightarrow> Inl e
            | Inr c' \<Rightarrow> Inr (tidyFormatType_INT16, c', p + 1))
      else if c = CHR ''L''
      then (case deref fmt p of
              Inl e \<Rightarrow> Inl e
            | Inr c' \<Rightarrow> Inr (tidyFormatType_INT64, c', p + 1))
      else if c = CHR ''l''
      then (case deref fmt p of
              Inl e \<Rightarrow> Inl e
            | Inr c' \<Rightarrow>
                if c' = CHR ''l''
                then (case deref fmt (p + 1) of
                        Inl e \<Rightarrow> Inl e
                      | Inr c'' \<Rightarrow> Inr (tidyFormatType_INT64, c'', p + 2))
                else Inr (tidyFormatType_INT32, c', p + 1))
      else if c = CHR ''z''
      then (case deref fmt p of
              Inl e \<Rightarrow> Inl e
            | Inr c' \<Rightarrow>
                Inr (if sizeof_size_t plat = 4 then tidyFormatType_INT32
                     else if sizeof_size_t plat = 8 then tidyFormatType_INT64
                     else tidyFormatType_UNKNOWN, c', p + 1))
      else Inr (tidyFormatType_INTN, c, p))"

text \<open>The \<^verbatim>\<open>switch (c)\<close> on the conversion character; \<open>ty\<close> is \<^verbatim>\<open>nas[cn].type\<close> so far.\<close>

definition conversion_type ::
  "platform \<Rightarrow> char \<Rightarrow> TidyFormatParameterType \<Rightarrow> TidyFormatParameterType" where
  "conversion_type plat c ty =
     (if c \<in> set ''dciouxX'' then ty
      else if c \<in> set ''efg'' then tidyFormatType_DOUBLE
      else if c = CHR ''p'' then
        (if sizeof_voidp plat = 4 then tidyFormatType_UINT32
         else if sizeof_voidp plat = 8 then tidyFormatType_UINT64
         else if sizeof_voidp plat = sizeof_int plat then tidyFormatType_UINTN
         else tidyFormatType_UNKNOWN)
      else if c = CHR ''S'' then
        (if WIN32 plat then tidyFormatType_WSTRING else tidyFormatType_UNKNOWN)
      else if c \<in> set ''CEG'' then tidyFormatType_UNKNOWN
      else if c = CHR ''s'' then tidyFormatType_STRING
      else if c = CHR ''n'' then tidyFormatType_INTSTR
      else tidyFormatType_UNKNOWN)"

text \<open>
  \<^verbatim>\<open>strncpy(dst, src, n)\<close> stores exactly \<open>n\<close> bytes: the characters of the string
  at \<open>src\<close>, and NUL bytes behind them when the string is shorter than \<open>n\<close>. No
  terminator is stored when the string has \<open>n\<close> characters or more. \<open>src\<close> is the
  format string from the source offset on.
\<close>

definition strncpy :: "string \<Rightarrow> nat \<Rightarrow> string" where
  "strncpy src n = take n (takeWhile (\<lambda>c. c \<noteq> NUL) src @ replicate n NUL)"

text \<open>
  One round of the second loop from \<^verbatim>\<open>pos = p - fmt - 2\<close> on, entered with the
  character \<open>c\<close> after the \<^verbatim>\<open>%\<close> and the read position \<open>p\<close> behind it. \<open>Break\<close>
  is a \<^verbatim>\<open>*rv = -1; break;\<close>, \<open>Next\<close> the end of the loop body.
\<close>

datatype classify_step =
    Break "printfArg list"
  | Next nat int "printfArg list"

definition classify_spec ::
  "platform \<Rightarrow> string \<Rightarrow> nat \<Rightarrow> char \<Rightarrow> int \<Rightarrow> printfArg list \<Rightarrow> fault + classify_step" where
  "classify_spec plat fmt p c cn nas =
     (let pos = int p - 2 in
      if c = CHR ''*'' then Inr (Break nas)
      else
        (case skip_digits fmt p c of
           Inl e \<Rightarrow> Inl e
         | Inr (c1, p1) \<Rightarrow>
             (case read_precision fmt p1 c1 of
                Inl e \<Rightarrow> Inl e
              | Inr None \<Rightarrow> Inr (Break nas)
              | Inr (Some (c2, p2)) \<Rightarrow>
                  (let cn' = cn + 1 in
                   if cn' < 0 \<or> int (length nas) \<le> cn' then Inl IndexOutOfRange
                   else
                     (case read_size plat fmt p2 c2 of
                        Inl e \<Rightarrow> Inl e
                      | Inr (ty, c3, p3) \<Rightarrow>
                          (let ty' = conversion_type plat c3 ty;
                               flen = int p3 - pos;
                               a = (nas ! nat cn')
                                     \<lparr>type := ty', formatStart := pos, formatLength := flen\<rparr>
                           in if flen \<ge> FORMAT_LENGTH
                              then Inr (Break (nas[nat cn' := a]))
                              else
                                (let a' = a\<lparr>format := strncpy (drop (nat pos) fmt) (nat flen)\<rparr>;
                                     nas' = nas[nat cn' := a']
                                 in if ty' = tidyFormatType_UNKNOWN
                                    then Inr (Break nas')
                                    else Inr (Next p3 cn' nas'))))))))"

lemma skip_digits_mono: "skip_digits fmt p c = Inr (c', p') \<Longrightarrow> p \<le> p'"
proof (induction fmt p c rule: skip_digits.induct)
  case (1 fmt p c)
  show ?case
  proof (cases "is_digit c")
    case True
    with "1.prems" obtain d where d: "deref fmt p = Inr d"
      and r: "skip_digits fmt (p + 1) d = Inr (c', p')"
      by (subst (asm) skip_digits.simps) (simp split: sum.splits)
    from "1.IH" [OF True d r] show ?thesis by simp
  next
    case False
    with "1.prems" show ?thesis
      by (subst (asm) skip_digits.simps) simp
  qed
qed

lemma read_precision_mono:
  assumes "read_precision fmt p c = Inr (Some (c', p'))"
  shows "p \<le> p'"
proof (cases "c = CHR ''.''")
  case True
  with assms obtain d where "skip_digits fmt (p + 1) d = Inr (c', p')"
    by (simp add: read_precision_def split: sum.splits if_splits)
  from skip_digits_mono [OF this] show ?thesis by simp
next
  case False
  with assms show ?thesis by (simp add: read_precision_def)
qed

lemma read_size_mono: "read_size plat fmt p c = Inr (ty, c', p') \<Longrightarrow> p \<le> p'"
  unfolding read_size_def
  by (simp split: if_splits sum.splits)

lemma classify_spec_Next:
  assumes "classify_spec plat fmt p c cn nas = Inr (Next p' cn' nas')"
  shows "\<exists>c1 p1 c2 p2 ty c3.
           skip_digits fmt p c = Inr (c1, p1) \<and>
           read_precision fmt p1 c1 = Inr (Some (c2, p2)) \<and>
           read_size plat fmt p2 c2 = Inr (ty, c3, p')"
proof -
  from assms have ns: "c \<noteq> CHR ''*''"
    by (simp add: classify_spec_def Let_def split: if_splits)
  obtain c1 p1 where a: "skip_digits fmt p c = Inr (c1, p1)"
    using assms ns by (simp add: classify_spec_def Let_def split: sum.splits prod.splits)
  obtain c2 p2 where b: "read_precision fmt p1 c1 = Inr (Some (c2, p2))"
    using assms ns a
    by (simp add: classify_spec_def Let_def split: sum.splits option.splits prod.splits)
  have ix: "\<not> (cn + 1 < 0 \<or> int (length nas) \<le> cn + 1)"
    using assms ns a b by (simp add: classify_spec_def Let_def split: if_splits)
  obtain ty c3 p3 where c: "read_size plat fmt p2 c2 = Inr (ty, c3, p3)"
    using assms ns a b ix
    by (simp add: classify_spec_def Let_def split: sum.splits prod.splits)
  have "p3 = p'"
    using assms ns a b ix c by (simp add: classify_spec_def Let_def split: if_splits)
  with a b c show ?thesis by blast
qed

lemma classify_spec_mono:
  assumes "classify_spec plat fmt p c cn nas = Inr (Next p' cn' nas')"
  shows "p \<le> p'"
proof -
  from classify_spec_Next [OF assms] obtain c1 p1 c2 p2 ty c3 where
    a: "skip_digits fmt p c = Inr (c1, p1)" and
    b: "read_precision fmt p1 c1 = Inr (Some (c2, p2))" and
    c: "read_size plat fmt p2 c2 = Inr (ty, c3, p')"
    by blast
  from skip_digits_mono [OF a] read_precision_mono [OF b] read_size_mono [OF c]
  show ?thesis by simp
qed

text \<open>
  The second loop. \<^verbatim>\<open>*rv\<close> is 0 on entry and becomes -1 at a \<^verbatim>\<open>break\<close>; the
  result is \<^verbatim>\<open>*rv\<close> and the array after the loop.
\<close>

function classify_loop ::
  "platform \<Rightarrow> string \<Rightarrow> nat \<Rightarrow> int \<Rightarrow> printfArg list \<Rightarrow> fault + (int \<times> printfArg list)" where
  "classify_loop plat fmt p cn nas =
     (case deref fmt p of
        Inl e \<Rightarrow> Inl e
      | Inr c \<Rightarrow>
          if c = NUL then Inr (0, nas)
          else if c \<noteq> CHR ''%'' then classify_loop plat fmt (p + 1) cn nas
          else (case deref fmt (p + 1) of
                  Inl e \<Rightarrow> Inl e
                | Inr c' \<Rightarrow>
                    if c' = CHR ''%'' then classify_loop plat fmt (p + 2) cn nas
                    else (case classify_spec plat fmt (p + 2) c' cn nas of
                            Inl e \<Rightarrow> Inl e
                          | Inr (Break nas') \<Rightarrow> Inr (- 1, nas')
                          | Inr (Next p' cn' nas') \<Rightarrow> classify_loop plat fmt p' cn' nas')))"
  by pat_completeness auto
termination
proof (relation "measure (\<lambda>(plat, fmt, p, cn, nas). length fmt + 2 - p)", goal_cases)
  case 1
  show ?case by simp
next
  case 2
  then show ?case by (simp add: deref_def split: if_splits)
next
  case 3
  then show ?case by (simp add: deref_def split: if_splits)
next
  case (4 plat fmt p cn nas c c' st p' cn' nas')
  from classify_spec_mono [of plat fmt "p + 2" c' cn nas p' cn' nas'] 4
  have "p + 2 \<le> p'" by simp
  moreover from 4 have "p \<le> length fmt" by (simp add: deref_def split: if_splits)
  ultimately show ?case by simp
qed

declare classify_loop.simps [simp del]

subsection \<open>Third pass: taking the values\<close>

text \<open>
  The \<^verbatim>\<open>switch (nas[cn].type)\<close> of the third loop on one element: \<^verbatim>\<open>va_arg\<close> takes
  the next argument with the type of the case; \<open>None\<close> is the \<^verbatim>\<open>default:\<close> branch.
\<close>

definition va_arg_int :: "va_list \<Rightarrow> fault + (int \<times> va_list)" where
  "va_arg_int ap = (case ap of V_integer v # rest \<Rightarrow> Inr (v, rest) | _ \<Rightarrow> Inl BadVaArg)"

definition store_int ::
  "printfArg \<Rightarrow> (int \<Rightarrow> arg_union) \<Rightarrow> va_list \<Rightarrow> fault + (printfArg \<times> va_list) option" where
  "store_int a member ap =
     (case va_arg_int ap of
        Inl e \<Rightarrow> Inl e
      | Inr (v, rest) \<Rightarrow> Inr (Some (a\<lparr>u := member v\<rparr>, rest)))"

definition consume_arg ::
  "platform \<Rightarrow> printfArg \<Rightarrow> va_list \<Rightarrow> fault + (printfArg \<times> va_list) option" where
  "consume_arg plat a ap =
     (case type a of
        tidyFormatType_INT16 \<Rightarrow> store_int a (\<lambda>v. U_i (to_signed (int_bits plat) v)) ap
      | tidyFormatType_UINT16 \<Rightarrow> store_int a (\<lambda>v. U_i (to_signed (int_bits plat) v)) ap
      | tidyFormatType_INTN \<Rightarrow> store_int a (\<lambda>v. U_i (to_signed (int_bits plat) v)) ap
      | tidyFormatType_UINTN \<Rightarrow> store_int a (\<lambda>v. U_ui (to_unsigned (int_bits plat) v)) ap
      | tidyFormatType_INT32 \<Rightarrow> store_int a (\<lambda>v. U_i32 (to_signed 32 v)) ap
      | tidyFormatType_UINT32 \<Rightarrow> store_int a (\<lambda>v. U_ui32 (to_unsigned 32 v)) ap
      | tidyFormatType_INT64 \<Rightarrow> store_int a (\<lambda>v. U_ll (to_signed 64 v)) ap
      | tidyFormatType_UINT64 \<Rightarrow> store_int a (\<lambda>v. U_ull (to_unsigned 64 v)) ap
      | tidyFormatType_STRING \<Rightarrow>
          (case ap of V_charp s # rest \<Rightarrow> Inr (Some (a\<lparr>u := U_s s\<rparr>, rest)) | _ \<Rightarrow> Inl BadVaArg)
      | tidyFormatType_WSTRING \<Rightarrow>
          (if WIN32 plat
           then (case ap of V_wcharp w # rest \<Rightarrow> Inr (Some (a\<lparr>u := U_ws w\<rparr>, rest))
                          | _ \<Rightarrow> Inl BadVaArg)
           else Inr None)
      | tidyFormatType_INTSTR \<Rightarrow>
          (case ap of V_size_tp q # rest \<Rightarrow> Inr (Some (a\<lparr>u := U_ip q\<rparr>, rest)) | _ \<Rightarrow> Inl BadVaArg)
      | tidyFormatType_DOUBLE \<Rightarrow>
          (case ap of V_double d # rest \<Rightarrow> Inr (Some (a\<lparr>u := U_d d\<rparr>, rest)) | _ \<Rightarrow> Inl BadVaArg)
      | tidyFormatType_UNKNOWN \<Rightarrow> Inr None)"

text \<open>
  \<^verbatim>\<open>while (cn < number) { if (nas[cn].type == tidyFormatType_UNKNOWN) { cn++; continue; }
  switch (nas[cn].type) { ... default: TidyDocFree(doc, nas); *rv = -1; return NULL; } cn++; }\<close>
  The result \<open>None\<close> is the return from the \<^verbatim>\<open>default:\<close> branch.
\<close>

function consume_loop ::
  "platform \<Rightarrow> printfArg list \<Rightarrow> int \<Rightarrow> int \<Rightarrow> va_list \<Rightarrow> fault + (printfArg list) option" where
  "consume_loop plat nas cn number ap =
     (if cn < number
      then (if cn < 0 \<or> int (length nas) \<le> cn then Inl IndexOutOfRange
            else if type (nas ! nat cn) = tidyFormatType_UNKNOWN
            then consume_loop plat nas (cn + 1) number ap
            else (case consume_arg plat (nas ! nat cn) ap of
                    Inl e \<Rightarrow> Inl e
                  | Inr None \<Rightarrow> Inr None
                  | Inr (Some (a, ap')) \<Rightarrow>
                      consume_loop plat (nas[nat cn := a]) (cn + 1) number ap'))
      else Inr (Some nas))"
  by pat_completeness auto
termination
  by (relation "measure (\<lambda>(plat, nas, cn, number, ap). nat (number - cn))") auto

declare consume_loop.simps [simp del]

subsection \<open>The message record and the document\<close>

text \<open>
  \<^verbatim>\<open>TidyMessageImpl\<close>, \<^verbatim>\<open>TidyDocImpl\<close>, \<^verbatim>\<open>Node\<close> and \<^verbatim>\<open>Lexer\<close> are declared in
  headers that are not part of the sources at hand; the records hold the members that
  messageobj.c reads and writes. The back pointer \<^verbatim>\<open>tidyDoc\<close> of the message is left
  out. \<^verbatim>\<open>TidyReportLevel\<close> values and message codes are their integer codes.
  \<open>alloc_ok\<close> says whether the document's allocator hands out memory
  (\<^verbatim>\<open>TidyDocAlloc\<close> returns non-NULL).
\<close>

record Node =
  node_line :: int
  node_column :: int

record Lexer =
  lines :: int
  columns :: int

record TidyMessageImpl =
  tidyNode :: "Node option"
  code :: nat
  line :: int
  column :: int
  level :: nat
  arguments :: "printfArg list option"
  argcount :: int
  messageKey :: string
  messageFormatDefault :: string
  messageFormat :: string
  messageDefault :: string
  message :: string
  messagePosDefault :: string
  messagePos :: string
  messagePrefixDefault :: string
  messagePrefix :: string
  messageOutputDefault :: string
  messageOutput :: string
  allowMessage :: bool

record TidyDocImpl =
  alloc_ok :: bool
  cfg_TidyEmacs :: bool
  cfg_TidyEmacsFile :: "string option"
  lexer :: "Lexer option"
  reportFilter :: "(nat \<Rightarrow> int \<Rightarrow> int \<Rightarrow> string \<Rightarrow> bool) option"
  reportCallback :: "(nat \<Rightarrow> int \<Rightarrow> int \<Rightarrow> string \<Rightarrow> va_list \<Rightarrow> bool) option"
  messageCallback :: "(TidyMessageImpl \<Rightarrow> bool) option"

subsection \<open>BuildArgArray\<close>

text \<open>
  What the caller gets: the returned pointer (\<open>None\<close> is \<^verbatim>\<open>NULL\<close>), \<^verbatim>\<open>*rv\<close>, and
  the allocator calls made (\<^verbatim>\<open>TidyDocAlloc\<close> of so many elements, \<^verbatim>\<open>TidyDocFree\<close>).
  An element fresh from the allocator has type \<^verbatim>\<open>tidyFormatType_UNKNOWN\<close> (the loop
  after the allocation) and nothing stored in \<^verbatim>\<open>format\<close>; its other members are
  uninitialised in C and hold fixed placeholders here.
\<close>

datatype heap_event = Allocated nat | Freed

record scan_result =
  returned :: "printfArg list option"
  rv :: int
  heap_log :: "heap_event list"

definition fresh_arg :: printfArg where
  "fresh_arg = \<lparr>type = tidyFormatType_UNKNOWN, formatStart = 0, formatLength = 0,
                format = [], u = U_none\<rparr>"

definition BuildArgArray ::
  "platform \<Rightarrow> TidyDocImpl \<Rightarrow> string \<Rightarrow> va_list \<Rightarrow> fault + scan_result" where
  "BuildArgArray plat doc fmt ap =
     (case count_loop fmt 0 0 of
        Inl e \<Rightarrow> Inl e
      | Inr number \<Rightarrow>
          if number = 0 then Inr \<lparr>returned = None, rv = 0, heap_log = []\<rparr>
          else if \<not> alloc_ok doc then Inr \<lparr>returned = None, rv = - 1, heap_log = []\<rparr>
          else
            (case classify_loop plat fmt 0 (- 1) (replicate (nat number) fresh_arg) of
               Inl e \<Rightarrow> Inl e
             | Inr (rv2, nas) \<Rightarrow>
                 if rv2 < 0
                 then Inr \<lparr>returned = None, rv = - 1,
                           heap_log = [Allocated (nat number), Freed]\<rparr>
                 else
                   (case consume_loop plat nas 0 number ap of
                      Inl e \<Rightarrow> Inl e
                    | Inr None \<Rightarrow>
                        Inr \<lparr>returned = None, rv = - 1,
                             heap_log = [Allocated (nat number), Freed]\<rparr>
                    | Inr (Some nas') \<Rightarrow>
                        Inr \<lparr>returned = Some nas', rv = number,
                             heap_log = [Allocated (nat number)]\<rparr>)))"

section \<open>The message assembler\<close>

subsection \<open>Collaborators\<close>

text \<open>
  The localisation tables, the key table, the two enumerators
  \<^verbatim>\<open>LINE_COLUMN_STRING\<close> and \<^verbatim>\<open>TidyFatal\<close> and the C library's formatter are defined
  outside messageobj.c; they are parameters of the model.
\<close>

record externals =
  tidyDefaultString :: "nat \<Rightarrow> string"
  tidyLocalizedString :: "nat \<Rightarrow> string"
  tidyErrorCodeAsKey :: "nat \<Rightarrow> string"
  LINE_COLUMN_STRING :: nat
  TidyFatal :: nat
  vsnprintf :: "nat \<Rightarrow> string \<Rightarrow> va_list \<Rightarrow> string"

text \<open>
  Modelled from the spec: \<^verbatim>\<open>tmbsnprintf\<close> and \<^verbatim>\<open>tmbvsnprintf\<close> (tmbstr.c) are not
  part of the sources at hand. The spec gives them conventional bounded formatting:
  the text is rendered into a buffer of \<open>count\<close> units and cut silently when it does
  not fit, so at most \<open>count - 1\<close> characters are kept before the terminator. For a
  format built from literal characters and the two directives of the composition
  patterns, \<^verbatim>\<open>%s\<close> (the whole string argument) and \<^verbatim>\<open>%.0s\<close> (no character of the
  string argument), the text is spelled out by \<open>format_strings\<close>; every other format
  is left to the formatter \<open>vsnprintf\<close> of the collaborators.
\<close>

fun format_strings :: "string \<Rightarrow> va_list \<Rightarrow> string option" where
  "format_strings fmt args =
     (case fmt of
        [] \<Rightarrow> Some []
      | c # cs \<Rightarrow>
          if c \<noteq> CHR ''%'' then map_option ((#) c) (format_strings cs args)
          else if take 1 cs = ''s''
          then (case args of
                  V_charp a # rest \<Rightarrow> map_option ((@) a) (format_strings (drop 1 cs) rest)
                | _ \<Rightarrow> None)
          else if take 3 cs = ''.0s''
          then (case args of
                  V_charp a # rest \<Rightarrow> format_strings (drop 3 cs) rest
                | _ \<Rightarrow> None)
          else None)"

declare format_strings.simps [simp del]

definition tmbvsnprintf :: "externals \<Rightarrow> nat \<Rightarrow> string \<Rightarrow> va_list \<Rightarrow> string" where
  "tmbvsnprintf ext count fmt args =
     (case format_strings fmt args of
        Some text \<Rightarrow> take (count - 1) text
      | None \<Rightarrow> vsnprintf ext count fmt args)"

definition tmbsnprintf :: "externals \<Rightarrow> nat \<Rightarrow> string \<Rightarrow> va_list \<Rightarrow> string" where
  "tmbsnprintf = tmbvsnprintf"

subsection \<open>tidyMessageCreateInitV\<close>

text \<open>
  The calls made to the registered callbacks, in order, each with the \<^verbatim>\<open>Bool\<close> it
  returned.
\<close>

datatype observer = ReportFilter | ReportCallback | MessageCallback

type_synonym dispatch_log = "(observer \<times> bool) list"

definition sizeMessageBuf :: nat where
  "sizeMessageBuf = 2048"

text \<open>
  The first part of the constructor, up to \<^verbatim>\<open>result->allowMessage = yes\<close>: the
  members known from the parameters, the scanner's result, the rendered strings and
  the composed output. \<open>pattern\<close> is chosen as in the C code: by position first, then
  overridden for a level above \<^verbatim>\<open>TidyFatal\<close>.
\<close>

definition compose_record ::
  "externals \<Rightarrow> TidyDocImpl \<Rightarrow> Node option \<Rightarrow> nat \<Rightarrow> int \<Rightarrow> int \<Rightarrow> nat \<Rightarrow> va_list
     \<Rightarrow> scan_result \<Rightarrow> TidyMessageImpl" where
  "compose_record ext doc node code0 line0 column0 level0 args scan =
     (let msgDefault = tmbvsnprintf ext sizeMessageBuf (tidyDefaultString ext code0) args;
          msg = tmbvsnprintf ext sizeMessageBuf (tidyLocalizedString ext code0) args;
          emacs = (case cfg_TidyEmacsFile doc of
                     Some file \<Rightarrow> if cfg_TidyEmacs doc then Some file else None
                   | None \<Rightarrow> None);
          posDefault =
            (case emacs of
               Some file \<Rightarrow>
                 tmbsnprintf ext sizeMessageBuf ''%s:%d:%d: ''
                   [V_charp file, V_integer line0, V_integer column0]
             | None \<Rightarrow>
                 tmbsnprintf ext sizeMessageBuf (tidyDefaultString ext (LINE_COLUMN_STRING ext))
                   [V_integer line0, V_integer column0]);
          pos =
            (case emacs of
               Some file \<Rightarrow>
                 tmbsnprintf ext sizeMessageBuf ''%s:%d:%d: ''
                   [V_charp file, V_integer line0, V_integer column0]
             | None \<Rightarrow>
                 tmbsnprintf ext sizeMessageBuf
                   (tidyLocalizedString ext (LINE_COLUMN_STRING ext))
                   [V_integer line0, V_integer column0]);
          prefixDefault = tidyDefaultString ext level0;
          prefix = tidyLocalizedString ext level0;
          pattern0 = (if line0 > 0 \<and> column0 > 0 then ''%s%s%s'' else ''%.0s%s%s'');
          pattern = (if level0 > TidyFatal ext then ''%.0s%.0s%s'' else pattern0)
      in \<lparr>tidyNode = node, code = code0, line = line0, column = column0, level = level0,
          arguments = returned scan, argcount = rv scan,
          messageKey = tidyErrorCodeAsKey ext code0,
          messageFormatDefault = tidyDefaultString ext code0,
          messageFormat = tidyLocalizedString ext code0,
          messageDefault = msgDefault, message = msg,
          messagePosDefault = posDefault, messagePos = pos,
          messagePrefixDefault = prefixDefault, messagePrefix = prefix,
          messageOutputDefault =
            tmbsnprintf ext sizeMessageBuf pattern
              [V_charp posDefault, V_charp prefixDefault, V_charp msgDefault],
          messageOutput =
            tmbsnprintf ext sizeMessageBuf pattern [V_charp pos, V_charp prefix, V_charp msg],
          allowMessage = True\<rparr>)"

text \<open>
  The second part: the three \<^verbatim>\<open>if\<close> statements that call the registered callbacks.
  \<^verbatim>\<open>a & b\<close> on \<^verbatim>\<open>Bool\<close> evaluates both sides, so a callback is called whatever
  \<^verbatim>\<open>allowMessage\<close> holds by then. The message callback gets the record as it is at
  that point.
\<close>

definition dispatch_callbacks ::
  "externals \<Rightarrow> TidyDocImpl \<Rightarrow> va_list \<Rightarrow> TidyMessageImpl \<Rightarrow> TidyMessageImpl \<times> dispatch_log" where
  "dispatch_callbacks ext doc args result0 =
     (let (result1, log1) =
            (case reportFilter doc of
               Some filt \<Rightarrow>
                 if level result0 \<le> TidyFatal ext
                 then (let v = filt (level result0) (line result0) (column result0)
                                 (messageOutput result0)
                       in (result0\<lparr>allowMessage := allowMessage result0 \<and> v\<rparr>,
                           [(ReportFilter, v)]))
                 else (result0, [])
             | None \<Rightarrow> (result0, []));
          (result2, log2) =
            (case reportCallback doc of
               Some cb \<Rightarrow>
                 if level result1 \<le> TidyFatal ext
                 then (let v = cb (level result1) (line result1) (column result1)
                                 (messageKey result1) args
                       in (result1\<lparr>allowMessage := allowMessage result1 \<and> v\<rparr>,
                           [(ReportCallback, v)]))
                 else (result1, [])
             | None \<Rightarrow> (result1, []));
          (result3, log3) =
            (case messageCallback doc of
               Some cb \<Rightarrow>
                 (let v = cb result2
                  in (result2\<lparr>allowMessage := allowMessage result2 \<and> v\<rparr>,
                      [(MessageCallback, v)]))
             | None \<Rightarrow> (result2, []))
      in (result3, log1 @ log2 @ log3))"

text \<open>
  The constructor. The allocations of the record and of its buffers are not checked
  in the C code; with an allocator that returns \<^verbatim>\<open>NULL\<close> the first store through
  \<^verbatim>\<open>result\<close> is a null dereference.
\<close>

definition tidyMessageCreateInitV ::
  "externals \<Rightarrow> platform \<Rightarrow> TidyDocImpl \<Rightarrow> Node option \<Rightarrow> nat \<Rightarrow> int \<Rightarrow> int \<Rightarrow> nat \<Rightarrow> va_list
     \<Rightarrow> fault + (TidyMessageImpl \<times> dispatch_log)" where
  "tidyMessageCreateInitV ext plat doc node code0 line0 column0 level0 args =
     (if \<not> alloc_ok doc then Inl NullDereference
      else
        (case BuildArgArray plat doc (tidyDefaultString ext code0) args of
           Inl e \<Rightarrow> Inl e
         | Inr scan \<Rightarrow>
             Inr (dispatch_callbacks ext doc args
                    (compose_record ext doc node code0 line0 column0 level0 args scan))))"

definition tidyMessageCreate ::
  "externals \<Rightarrow> platform \<Rightarrow> TidyDocImpl \<Rightarrow> nat \<Rightarrow> nat \<Rightarrow> va_list
     \<Rightarrow> fault + (TidyMessageImpl \<times> dispatch_log)" where
  "tidyMessageCreate ext plat doc code0 level0 args =
     tidyMessageCreateInitV ext plat doc None code0 0 0 level0 args"

definition tidyMessageCreateWithNode ::
  "externals \<Rightarrow> platform \<Rightarrow> TidyDocImpl \<Rightarrow> Node option \<Rightarrow> nat \<Rightarrow> nat \<Rightarrow> va_list
     \<Rightarrow> fault + (TidyMessageImpl \<times> dispatch_log)" where
  "tidyMessageCreateWithNode ext plat doc node code0 level0 args =
     (let line0 = (case node of Some n \<Rightarrow> node_line n
                   | None \<Rightarrow> (case lexer doc of Some lx \<Rightarrow> lines lx | None \<Rightarrow> 0));
          col0 = (case node of Some n \<Rightarrow> node_column n
                  | None \<Rightarrow> (case lexer doc of Some lx \<Rightarrow> columns lx | None \<Rightarrow> 0))
      in tidyMessageCreateInitV ext plat doc node code0 line0 col0 level0 args)"

definition tidyMessageCreateWithLexer ::
  "externals \<Rightarrow> platform \<Rightarrow> TidyDocImpl \<Rightarrow> nat \<Rightarrow> nat \<Rightarrow> va_list
     \<Rightarrow> fault + (TidyMessageImpl \<times> dispatch_log)" where
  "tidyMessageCreateWithLexer ext plat doc code0 level0 args =
     (let line0 = (case lexer doc of Some lx \<Rightarrow> lines lx | None \<Rightarrow> 0);
          col0 = (case lexer doc of Some lx \<Rightarrow> columns lx | None \<Rightarrow> 0)
      in tidyMessageCreateInitV ext plat doc None code0 line0 col0 level0 args)"

section \<open>Argument interrogation\<close>

text \<open>\<^verbatim>\<open>message.arguments[argNum]\<close>\<close>

definition argument_at :: "TidyMessageImpl \<Rightarrow> int \<Rightarrow> fault + printfArg" where
  "argument_at m argNum =
     (case arguments m of
        None \<Rightarrow> Inl NullDereference
      | Some nas \<Rightarrow>
          if 0 \<le> argNum \<and> argNum < int (length nas) then Inr (nas ! nat argNum)
          else Inl IndexOutOfRange)"

text \<open>Reading one member of the union.\<close>

definition member_i :: "arg_union \<Rightarrow> fault + int" where
  "member_i x = (case x of U_i v \<Rightarrow> Inr v | _ \<Rightarrow> Inl WrongUnionMember)"

definition member_ui :: "arg_union \<Rightarrow> fault + int" where
  "member_ui x = (case x of U_ui v \<Rightarrow> Inr v | _ \<Rightarrow> Inl WrongUnionMember)"

definition member_i32 :: "arg_union \<Rightarrow> fault + int" where
  "member_i32 x = (case x of U_i32 v \<Rightarrow> Inr v | _ \<Rightarrow> Inl WrongUnionMember)"

definition member_ui32 :: "arg_union \<Rightarrow> fault + int" where
  "member_ui32 x = (case x of U_ui32 v \<Rightarrow> Inr v | _ \<Rightarrow> Inl WrongUnionMember)"

definition member_ll :: "arg_union \<Rightarrow> fault + int" where
  "member_ll x = (case x of U_ll v \<Rightarrow> Inr v | _ \<Rightarrow> Inl WrongUnionMember)"

definition member_ull :: "arg_union \<Rightarrow> fault + int" where
  "member_ull x = (case x of U_ull v \<Rightarrow> Inr v | _ \<Rightarrow> Inl WrongUnionMember)"

definition getArgType :: "TidyMessageImpl \<Rightarrow> int \<Rightarrow> fault + TidyFormatParameterType" where
  "getArgType m argNum =
     (if \<not> argNum \<le> argcount m then Inl AssertionFailed
      else (case argument_at m argNum of Inl e \<Rightarrow> Inl e | Inr a \<Rightarrow> Inr (type a)))"

text \<open>
  \<^verbatim>\<open>getArgFormat\<close> returns the address of the array \<^verbatim>\<open>format\<close>. What a reader of
  that pointer finds is a string only when a NUL is among the bytes stored: then the
  characters before the first NUL. Otherwise the bytes stored are followed by memory
  that was never written, and no terminator is known to follow. The scanner stores the
  text of a specifier with \<^verbatim>\<open>strncpy\<close> and no terminator, so for the descriptors of
  a returned array the second case holds.
\<close>

datatype c_chars =
    Terminated string      \<comment> \<open>a string, terminator stored\<close>
  | Unterminated string    \<comment> \<open>these bytes, then indeterminate memory\<close>

definition format_chars :: "printfArg \<Rightarrow> c_chars" where
  "format_chars a =
     (if NUL \<in> set (format a) then Terminated (takeWhile (\<lambda>c. c \<noteq> NUL) (format a))
      else Unterminated (format a))"

definition getArgFormat :: "TidyMessageImpl \<Rightarrow> int \<Rightarrow> fault + c_chars" where
  "getArgFormat m argNum =
     (if \<not> argNum \<le> argcount m then Inl AssertionFailed
      else (case argument_at m argNum of Inl e \<Rightarrow> Inl e | Inr a \<Rightarrow> Inr (format_chars a)))"

definition getArgValueString :: "TidyMessageImpl \<Rightarrow> int \<Rightarrow> fault + string" where
  "getArgValueString m argNum =
     (if \<not> argNum \<le> argcount m then Inl AssertionFailed
      else (case argument_at m argNum of
              Inl e \<Rightarrow> Inl e
            | Inr a \<Rightarrow>
                if type a \<noteq> tidyFormatType_STRING then Inl AssertionFailed
                else (case u a of U_s s \<Rightarrow> Inr s | _ \<Rightarrow> Inl WrongUnionMember)))"

definition getArgValueDouble :: "TidyMessageImpl \<Rightarrow> int \<Rightarrow> fault + 64 word" where
  "getArgValueDouble m argNum =
     (if \<not> argNum \<le> argcount m then Inl AssertionFailed
      else (case argument_at m argNum of
              Inl e \<Rightarrow> Inl e
            | Inr a \<Rightarrow>
                if type a \<noteq> tidyFormatType_DOUBLE then Inl AssertionFailed
                else (case u a of U_d d \<Rightarrow> Inr d | _ \<Rightarrow> Inl WrongUnionMember)))"

text \<open>
  The two integer getters. \<^verbatim>\<open>typeIsValid = no\<close> ends in the failing
  \<^verbatim>\<open>assert(typeIsValid == yes)\<close>; \<open>cast\<close> is the conversion \<^verbatim>\<open>(uint)\<close> or \<^verbatim>\<open>(int)\<close>
  of the member read. \<^verbatim>\<open>sizeof(int16_t)\<close>, \<^verbatim>\<open>sizeof(int32_t)\<close>, \<^verbatim>\<open>sizeof(int64_t)\<close>
  are 2, 4 and 8.
\<close>

definition cast_of :: "(int \<Rightarrow> int) \<Rightarrow> fault + int \<Rightarrow> fault + int" where
  "cast_of cast r = (case r of Inl e \<Rightarrow> Inl e | Inr v \<Rightarrow> Inr (cast v))"

definition getArgValueUInt :: "platform \<Rightarrow> TidyMessageImpl \<Rightarrow> int \<Rightarrow> fault + int" where
  "getArgValueUInt plat m argNum =
     (if \<not> argNum \<le> argcount m then Inl AssertionFailed
      else (case argument_at m argNum of
              Inl e \<Rightarrow> Inl e
            | Inr a \<Rightarrow>
                (let uint = to_unsigned (int_bits plat) in
                 case type a of
                   tidyFormatType_UINTN \<Rightarrow> cast_of uint (member_ui (u a))
                 | tidyFormatType_UINT16 \<Rightarrow>
                     if sizeof_int plat \<le> 2 then cast_of uint (member_i (u a))
                     else Inl AssertionFailed
                 | tidyFormatType_UINT32 \<Rightarrow>
                     if sizeof_int plat \<le> 4 then cast_of uint (member_ui32 (u a))
                     else Inl AssertionFailed
                 | tidyFormatType_UINT64 \<Rightarrow>
                     if sizeof_int plat \<le> 8 then cast_of uint (member_ull (u a))
                     else Inl AssertionFailed
                 | _ \<Rightarrow> Inl AssertionFailed)))"

text \<open>
  In the unsigned cases the comparison with \<^verbatim>\<open>INT_MAX\<close> is part of the condition:
  the member is read first where the size test passes (\<^verbatim>\<open>&&\<close> is sequential).
\<close>

definition fits_int :: "platform \<Rightarrow> fault + int \<Rightarrow> fault + int" where
  "fits_int plat r =
     (case r of
        Inl e \<Rightarrow> Inl e
      | Inr v \<Rightarrow> if v \<le> INT_MAX plat then Inr (to_signed (int_bits plat) v)
                 else Inl AssertionFailed)"

definition getArgValueInt :: "platform \<Rightarrow> TidyMessageImpl \<Rightarrow> int \<Rightarrow> fault + int" where
  "getArgValueInt plat m argNum =
     (if \<not> argNum \<le> argcount m then Inl AssertionFailed
      else (case argument_at m argNum of
              Inl e \<Rightarrow> Inl e
            | Inr a \<Rightarrow>
                (let int' = to_signed (int_bits plat) in
                 case type a of
                   tidyFormatType_INTN \<Rightarrow> cast_of int' (member_i (u a))
                 | tidyFormatType_INT16 \<Rightarrow>
                     if sizeof_int plat \<le> 2 then cast_of int' (member_i (u a))
                     else Inl AssertionFailed
                 | tidyFormatType_INT32 \<Rightarrow>
                     if sizeof_int plat \<le> 4 then cast_of int' (member_i32 (u a))
                     else Inl AssertionFailed
                 | tidyFormatType_INT64 \<Rightarrow>
                     if sizeof_int plat \<le> 8 then cast_of int' (member_ll (u a))
                     else Inl AssertionFailed
                 | tidyFormatType_UINTN \<Rightarrow> fits_int plat (member_ui (u a))
                 | tidyFormatType_UINT16 \<Rightarrow>
                     if sizeof_int plat \<le> 2 then fits_int plat (member_i (u a))
                     else Inl AssertionFailed
                 | tidyFormatType_UINT32 \<Rightarrow>
                     if sizeof_int plat \<le> 4 then fits_int plat (member_ui32 (u a))
                     else Inl AssertionFailed
                 | tidyFormatType_UINT64 \<Rightarrow>
                     if sizeof_int plat \<le> 8 then fits_int plat (member_ull (u a))
                     else Inl AssertionFailed
                 | _ \<Rightarrow> Inl AssertionFailed)))"

section \<open>Format strings as the specification describes them\<close>

text \<open>
  The count pass of the specification pairs characters from the left: a \<^verbatim>\<open>%\<close>
  followed by \<^verbatim>\<open>%\<close> is an escape, a \<^verbatim>\<open>%\<close> followed by any other character starts a
  specifier, and the scan goes on behind the pair. \<open>count_specifiers\<close> is the number
  of specifiers so found; \<open>dangling_percent\<close> holds when the last character is a
  \<^verbatim>\<open>%\<close> that is left without a partner; \<open>only_escapes\<close> holds when every \<^verbatim>\<open>%\<close>
  is half of an escape.
\<close>

fun count_specifiers :: "string \<Rightarrow> nat" where
  "count_specifiers [] = 0"
| "count_specifiers [c] = (if c = CHR ''%'' then 1 else 0)"
| "count_specifiers (c # d # cs) =
     (if c = CHR ''%'' then (if d = CHR ''%'' then 0 else 1) + count_specifiers cs else count_specifiers (d # cs))"

fun dangling_percent :: "string \<Rightarrow> bool" where
  "dangling_percent [] = False"
| "dangling_percent [c] = (c = CHR ''%'')"
| "dangling_percent (c # d # cs) = (if c = CHR ''%'' then dangling_percent cs else dangling_percent (d # cs))"

fun only_escapes :: "string \<Rightarrow> bool" where
  "only_escapes [] = True"
| "only_escapes [c] = (c \<noteq> CHR ''%'')"
| "only_escapes (c # d # cs) =
     (if c = CHR ''%'' then d = CHR ''%'' \<and> only_escapes cs else only_escapes (d # cs))"

text \<open>
  Between the \<^verbatim>\<open>%\<close> and the length modifier or conversion character printf has
  flags, width and precision: characters among \<^verbatim>\<open>-+ #0123456789.*\<close>. A specifier gives
  its width or its precision as a run-time value when a \<^verbatim>\<open>*\<close> stands among them;
  the argument of \<open>dynamic_spec\<close> is the text behind the \<^verbatim>\<open>%\<close>. \<open>has_dynamic_spec\<close>
  holds when some specifier of the format string does.
\<close>

definition directive_char :: "char \<Rightarrow> bool" where
  "directive_char c = (c \<in> set ''-+ #0123456789.*'')"

definition dynamic_spec :: "string \<Rightarrow> bool" where
  "dynamic_spec cs = (CHR ''*'' \<in> set (takeWhile directive_char cs))"

fun has_dynamic_spec :: "string \<Rightarrow> bool" where
  "has_dynamic_spec [] = False"
| "has_dynamic_spec [c] = False"
| "has_dynamic_spec (c # d # cs) =
     (if c = CHR ''%'' then (d \<noteq> CHR ''%'' \<and> dynamic_spec (d # cs)) \<or> has_dynamic_spec cs
      else has_dynamic_spec (d # cs))"

text \<open>
  The format language of the specification. A format string is a sequence of literal
  characters, \<^verbatim>\<open>%%\<close> escapes and specifiers; a specifier is \<^verbatim>\<open>%\<close>, width digits,
  an optional \<^verbatim>\<open>.\<close> with precision digits, an optional length modifier and the
  conversion character.
\<close>

datatype length_modifier = NoModifier | Mod_h | Mod_l | Mod_ll | Mod_L | Mod_z

record specifier =
  spec_width :: string
  spec_precision :: "string option"
  spec_modifier :: length_modifier
  spec_conversion :: char

datatype format_item = Literal char | Escape | Specifier specifier

definition precision_text :: "string option \<Rightarrow> string" where
  "precision_text pr = (case pr of None \<Rightarrow> [] | Some ds \<Rightarrow> CHR ''.'' # ds)"

definition modifier_text :: "length_modifier \<Rightarrow> string" where
  "modifier_text m =
     (case m of NoModifier \<Rightarrow> [] | Mod_h \<Rightarrow> ''h'' | Mod_l \<Rightarrow> ''l'' | Mod_ll \<Rightarrow> ''ll''
      | Mod_L \<Rightarrow> ''L'' | Mod_z \<Rightarrow> ''z'')"

definition specifier_text :: "specifier \<Rightarrow> string" where
  "specifier_text s =
     CHR ''%'' # spec_width s @ precision_text (spec_precision s) @
       modifier_text (spec_modifier s) @ [spec_conversion s]"

fun item_text :: "format_item \<Rightarrow> string" where
  "item_text (Literal c) = [c]"
| "item_text Escape = ''%%''"
| "item_text (Specifier s) = specifier_text s"

definition format_text :: "format_item list \<Rightarrow> string" where
  "format_text items = concat (map item_text items)"

fun specifiers_of :: "format_item list \<Rightarrow> specifier list" where
  "specifiers_of [] = []"
| "specifiers_of (Specifier s # items) = s # specifiers_of items"
| "specifiers_of (_ # items) = specifiers_of items"

text \<open>
  The mapping table: \<^verbatim>\<open>d i o u x X c\<close> take the size selected by the length
  modifier (native int without one, 16 bits for \<^verbatim>\<open>h\<close>, 32 for \<^verbatim>\<open>l\<close>, 64 for \<^verbatim>\<open>ll\<close>
  and \<^verbatim>\<open>L\<close>, the pointer size for \<^verbatim>\<open>z\<close>); \<^verbatim>\<open>e f g\<close> give double; \<^verbatim>\<open>p\<close> an unsigned
  integer of the pointer size; \<^verbatim>\<open>s\<close> string; \<^verbatim>\<open>n\<close> the write-back pointer.
\<close>

definition sized_kind :: "platform \<Rightarrow> length_modifier \<Rightarrow> TidyFormatParameterType" where
  "sized_kind plat m =
     (case m of
        NoModifier \<Rightarrow> tidyFormatType_INTN
      | Mod_h \<Rightarrow> tidyFormatType_INT16
      | Mod_l \<Rightarrow> tidyFormatType_INT32
      | Mod_ll \<Rightarrow> tidyFormatType_INT64
      | Mod_L \<Rightarrow> tidyFormatType_INT64
      | Mod_z \<Rightarrow>
          if sizeof_voidp plat = 4 then tidyFormatType_INT32
          else if sizeof_voidp plat = 8 then tidyFormatType_INT64
          else tidyFormatType_UNKNOWN)"

definition pointer_kind :: "platform \<Rightarrow> TidyFormatParameterType" where
  "pointer_kind plat =
     (if sizeof_voidp plat = 4 then tidyFormatType_UINT32
      else if sizeof_voidp plat = 8 then tidyFormatType_UINT64
      else if sizeof_voidp plat = sizeof_int plat then tidyFormatType_UINTN
      else tidyFormatType_UNKNOWN)"

definition table_kind :: "platform \<Rightarrow> specifier \<Rightarrow> TidyFormatParameterType" where
  "table_kind plat s =
     (if spec_conversion s \<in> set ''diouxXc'' then sized_kind plat (spec_modifier s)
      else if spec_conversion s \<in> set ''efg'' then tidyFormatType_DOUBLE
      else if spec_conversion s = CHR ''p'' then pointer_kind plat
      else if spec_conversion s = CHR ''s'' then tidyFormatType_STRING
      else if spec_conversion s = CHR ''n'' then tidyFormatType_INTSTR
      else tidyFormatType_UNKNOWN)"

text \<open>
  A specifier without unsupported feature: digits for width and precision, a
  conversion character of the table, a text shorter than \<^verbatim>\<open>FORMAT_LENGTH\<close>, and a
  kind that exists on the platform. A literal character is neither \<^verbatim>\<open>%\<close> nor NUL.
\<close>

definition supported_specifier :: "platform \<Rightarrow> specifier \<Rightarrow> bool" where
  "supported_specifier plat s =
     (list_all is_digit (spec_width s) \<and>
      (case spec_precision s of None \<Rightarrow> True | Some ds \<Rightarrow> list_all is_digit ds) \<and>
      spec_conversion s \<in> set ''diouxXcefgpsn'' \<and>
      int (length (specifier_text s)) < FORMAT_LENGTH \<and>
      table_kind plat s \<noteq> tidyFormatType_UNKNOWN)"

fun supported_item :: "platform \<Rightarrow> format_item \<Rightarrow> bool" where
  "supported_item plat (Literal c) = (c \<noteq> CHR ''%'' \<and> c \<noteq> NUL)"
| "supported_item plat Escape = True"
| "supported_item plat (Specifier s) = supported_specifier plat s"

text \<open>
  The descriptors expected for a format string that starts at offset \<open>off\<close>, before
  any value is stored: one per specifier, in order, with the kind of the table and the
  span and text of the specifier.
\<close>

fun expected_descriptors :: "platform \<Rightarrow> nat \<Rightarrow> format_item list \<Rightarrow> printfArg list" where
  "expected_descriptors plat off [] = []"
| "expected_descriptors plat off (Literal c # items) = expected_descriptors plat (off + 1) items"
| "expected_descriptors plat off (Escape # items) = expected_descriptors plat (off + 2) items"
| "expected_descriptors plat off (Specifier s # items) =
     \<lparr>type = table_kind plat s, formatStart = int off,
      formatLength = int (length (specifier_text s)), format = specifier_text s, u = U_none\<rparr>
     # expected_descriptors plat (off + length (specifier_text s)) items"

text \<open>
  The argument list supplies, in order, a value of the class that \<^verbatim>\<open>va_arg\<close> will
  ask for: an integer for the integer kinds, a double, a string, a \<^verbatim>\<open>size_t\<close> pointer.
\<close>

definition class_matches :: "TidyFormatParameterType \<Rightarrow> c_value \<Rightarrow> bool" where
  "class_matches k v =
     (case v of
        V_integer _ \<Rightarrow>
          k \<in> {tidyFormatType_INT16, tidyFormatType_UINT16, tidyFormatType_INTN,
               tidyFormatType_UINTN, tidyFormatType_INT32, tidyFormatType_UINT32,
               tidyFormatType_INT64, tidyFormatType_UINT64}
      | V_double _ \<Rightarrow> k = tidyFormatType_DOUBLE
      | V_charp _ \<Rightarrow> k = tidyFormatType_STRING
      | V_size_tp _ \<Rightarrow> k = tidyFormatType_INTSTR
      | V_wcharp _ \<Rightarrow> k = tidyFormatType_WSTRING)"

fun arguments_match :: "TidyFormatParameterType list \<Rightarrow> va_list \<Rightarrow> bool" where
  "arguments_match [] ap = True"
| "arguments_match (k # ks) [] = False"
| "arguments_match (k # ks) (v # ap) = (class_matches k v \<and> arguments_match ks ap)"

text \<open>The size that \<open>read_size\<close> selects, by length modifier (it asks \<^verbatim>\<open>sizeof(size_t)\<close>).\<close>

definition code_sized_kind :: "platform \<Rightarrow> length_modifier \<Rightarrow> TidyFormatParameterType" where
  "code_sized_kind plat m =
     (case m of
        NoModifier \<Rightarrow> tidyFormatType_INTN
      | Mod_h \<Rightarrow> tidyFormatType_INT16
      | Mod_l \<Rightarrow> tidyFormatType_INT32
      | Mod_ll \<Rightarrow> tidyFormatType_INT64
      | Mod_L \<Rightarrow> tidyFormatType_INT64
      | Mod_z \<Rightarrow>
          if sizeof_size_t plat = 4 then tidyFormatType_INT32
          else if sizeof_size_t plat = 8 then tidyFormatType_INT64
          else tidyFormatType_UNKNOWN)"

section \<open>Sample inputs\<close>

text \<open>
  A platform with 4-byte \<^verbatim>\<open>int\<close> and 8-byte pointers, a small message table, and
  documents with and without callbacks; the closed theorems below evaluate the code
  on them. The sample table puts \<^verbatim>\<open>TidyFatal\<close> at 356, so that 351 is a level
  of the normal range and 357 a dialogue level.
\<close>

definition plat_lp64 :: platform where
  "plat_lp64 = \<lparr>sizeof_int = 4, sizeof_size_t = 8, sizeof_voidp = 8, WIN32 = False\<rparr>"

definition ext_sample :: externals where
  "ext_sample =
     \<lparr>tidyDefaultString =
        (\<lambda>n. if n = 1 then ''%d'' else if n = 2 then ''%hd'' else if n = 3 then ''at: ''
              else if n = 4 then ''%s'' else ''Warning: ''),
      tidyLocalizedString =
        (\<lambda>n. if n = 1 then ''%d'' else if n = 2 then ''%hd'' else if n = 3 then ''en: ''
              else if n = 4 then ''%s'' else ''Avis: ''),
      tidyErrorCodeAsKey = (\<lambda>n. ''KEY''),
      LINE_COLUMN_STRING = 3,
      TidyFatal = 356,
      vsnprintf = (\<lambda>n f a. take (n - 1) f)\<rparr>"

definition doc_plain :: TidyDocImpl where
  "doc_plain =
     \<lparr>alloc_ok = True, cfg_TidyEmacs = False, cfg_TidyEmacsFile = None, lexer = None,
      reportFilter = None, reportCallback = None, messageCallback = None\<rparr>"

definition doc_observed :: TidyDocImpl where
  "doc_observed =
     \<lparr>alloc_ok = True, cfg_TidyEmacs = False, cfg_TidyEmacsFile = None, lexer = None,
      reportFilter = Some (\<lambda>lvl ln col out. False),
      reportCallback = Some (\<lambda>lvl ln col key ap. True),
      messageCallback = Some (\<lambda>m. True)\<rparr>"

text \<open>
  A document whose callbacks look at what they are given: the filter rejects one
  composed output, the key callback accepts one key, and the message callback answers
  with the negation of the \<^verbatim>\<open>allowMessage\<close> it finds in the record.
\<close>

definition doc_judging :: TidyDocImpl where
  "doc_judging =
     \<lparr>alloc_ok = True, cfg_TidyEmacs = False, cfg_TidyEmacsFile = None, lexer = None,
      reportFilter = Some (\<lambda>lvl ln col out. out \<noteq> ''en: Avis: x''),
      reportCallback = Some (\<lambda>lvl ln col key ap. key = ''KEY''),
      messageCallback = Some (\<lambda>m. \<not> allowMessage m)\<rparr>"

text \<open>The items of \<^verbatim>\<open>"%d and %5.2lls"\<close>.\<close>

definition sample_items :: "format_item list" where
  "sample_items =
     [Specifier \<lparr>spec_width = [], spec_precision = None, spec_modifier = NoModifier,
                 spec_conversion = CHR ''d''\<rparr>,
      Literal (CHR '' ''), Literal (CHR ''a''), Literal (CHR ''n''), Literal (CHR ''d''),
      Literal (CHR '' ''),
      Specifier \<lparr>spec_width = ''5'', spec_precision = Some ''2'', spec_modifier = Mod_ll,
                 spec_conversion = CHR ''s''\<rparr>]"

section \<open>Auxiliary facts\<close>

subsection \<open>The constructor\<close>

lemma create_Inr:
  assumes "tidyMessageCreateInitV ext plat doc node code0 line0 column0 level0 args = Inr (m, log)"
  shows "\<exists>scan. BuildArgArray plat doc (tidyDefaultString ext code0) args = Inr scan \<and>
           dispatch_callbacks ext doc args
             (compose_record ext doc node code0 line0 column0 level0 args scan) = (m, log)"
  using assms
  by (simp add: tidyMessageCreateInitV_def split: if_splits sum.splits)

lemma create_returns:
  assumes "alloc_ok doc"
    and "BuildArgArray plat doc (tidyDefaultString ext code0) args = Inr scan"
  shows "\<exists>m log. tidyMessageCreateInitV ext plat doc node code0 line0 column0 level0 args =
           Inr (m, log)"
  using assms
  by (cases "dispatch_callbacks ext doc args
               (compose_record ext doc node code0 line0 column0 level0 args scan)")
     (simp add: tidyMessageCreateInitV_def)

lemma dispatch_log:
  "snd (dispatch_callbacks ext doc args r) =
     (case reportFilter doc of
        Some filt \<Rightarrow> if level r \<le> TidyFatal ext
                     then [(ReportFilter, filt (level r) (line r) (column r) (messageOutput r))]
                     else []
      | None \<Rightarrow> []) @
     (case reportCallback doc of
        Some cb \<Rightarrow> if level r \<le> TidyFatal ext
                   then [(ReportCallback, cb (level r) (line r) (column r) (messageKey r) args)]
                   else []
      | None \<Rightarrow> []) @
     (case messageCallback doc of
        Some cb \<Rightarrow> [(MessageCallback, cb (fst (dispatch_callbacks ext (doc\<lparr>messageCallback := None\<rparr>) args r)))]
      | None \<Rightarrow> [])"
  by (simp add: dispatch_callbacks_def Let_def split: option.splits)

lemma dispatch_record:
  "fst (dispatch_callbacks ext doc args r) =
     r\<lparr>allowMessage := allowMessage r \<and> list_all snd (snd (dispatch_callbacks ext doc args r))\<rparr>"
  by (simp add: dispatch_callbacks_def Let_def split: option.splits)

lemma compose_level: "level (compose_record ext doc node code0 line0 column0 level0 args scan) = level0"
  by (simp add: compose_record_def Let_def)

lemma compose_line: "line (compose_record ext doc node code0 line0 column0 level0 args scan) = line0"
  by (simp add: compose_record_def Let_def)

lemma compose_column: "column (compose_record ext doc node code0 line0 column0 level0 args scan) = column0"
  by (simp add: compose_record_def Let_def)

lemma compose_allow: "allowMessage (compose_record ext doc node code0 line0 column0 level0 args scan)"
  by (simp add: compose_record_def Let_def)

lemma format_sss: "format_strings ''%s%s%s'' [V_charp a, V_charp b, V_charp c] = Some (a @ b @ c)"
  by (simp add: format_strings.simps)

lemma format_0ss: "format_strings ''%.0s%s%s'' [V_charp a, V_charp b, V_charp c] = Some (b @ c)"
  by (simp add: format_strings.simps)

lemma format_00s: "format_strings ''%.0s%.0s%s'' [V_charp a, V_charp b, V_charp c] = Some c"
  by (simp add: format_strings.simps)

lemma getArgFormat_sample:
  "(case tidyMessageCreateInitV ext_sample plat_lp64 doc_plain None 1 0 0 351 [V_integer 5] of
      Inl e \<Rightarrow> Inl e
    | Inr (m, log) \<Rightarrow> getArgFormat m 0) = Inr (Unterminated ''%d'')"
  by code_simp

lemma create_fields:
  assumes "tidyMessageCreateInitV ext plat doc node code0 line0 column0 level0 args = Inr (m, log)"
  obtains scan where
    "BuildArgArray plat doc (tidyDefaultString ext code0) args = Inr scan"
    "m = (compose_record ext doc node code0 line0 column0 level0 args scan)
           \<lparr>allowMessage := list_all snd log\<rparr>"
    "log = snd (dispatch_callbacks ext doc args
                  (compose_record ext doc node code0 line0 column0 level0 args scan))"
proof -
  from create_Inr [OF assms] obtain scan where
    b: "BuildArgArray plat doc (tidyDefaultString ext code0) args = Inr scan" and
    d: "dispatch_callbacks ext doc args
          (compose_record ext doc node code0 line0 column0 level0 args scan) = (m, log)"
    by blast
  let ?r = "compose_record ext doc node code0 line0 column0 level0 args scan"
  from d have l: "log = snd (dispatch_callbacks ext doc args ?r)" by simp
  from d have "m = fst (dispatch_callbacks ext doc args ?r)" by simp
  also have "\<dots> = ?r\<lparr>allowMessage := allowMessage ?r \<and>
                        list_all snd (snd (dispatch_callbacks ext doc args ?r))\<rparr>"
    by (rule dispatch_record)
  finally have "m = ?r\<lparr>allowMessage := list_all snd log\<rparr>"
    using l by (simp add: compose_allow)
  from that [OF b this l] show thesis .
qed

subsection \<open>The scanner\<close>

lemma percent_not_NUL [simp]: "CHR ''%'' \<noteq> NUL" "NUL \<noteq> CHR ''%''"
  by (simp_all add: NUL_def)

lemma deref_Cons: "drop p fmt = c # r \<Longrightarrow> deref fmt p = Inr c"
proof -
  assume a: "drop p fmt = c # r"
  then have l: "p < length fmt" by (cases "p < length fmt") simp_all
  from Cons_nth_drop_Suc [OF l] a have "fmt ! p = c" by simp
  with l show ?thesis by (simp add: deref_def)
qed

lemma deref_Nil: "drop p fmt = [] \<Longrightarrow> p \<le> length fmt \<Longrightarrow> deref fmt p = Inr NUL"
  by (simp add: deref_def)

lemma drop_Suc_Cons: "drop p fmt = c # r \<Longrightarrow> drop (Suc p) fmt = r"
  by (metis drop_Suc tl_drop list.sel(3))

lemma drop_Cons_le: "drop p fmt = c # r \<Longrightarrow> Suc p \<le> length fmt"
  by (cases "p < length fmt") simp_all

lemma drop_Cons_mem: "drop p fmt = c # r \<Longrightarrow> c \<in> set fmt"
  by (metis in_set_dropD list.set_intros(1))

lemma count_loop_eq:
  assumes "NUL \<notin> set fmt" and "drop p fmt = xs" and "p \<le> length fmt"
  shows "count_loop fmt p k =
           (if dangling_percent xs then Inl ReadPastEnd else Inr (k + int (count_specifiers xs)))"
  using assms(2,3)
proof (induction xs arbitrary: p k rule: dangling_percent.induct)
  case 1
  then show ?case
    by (subst count_loop.simps) (simp add: count_step_def deref_Nil)
next
  case (2 c)
  from "2.prems" have d: "deref fmt p = Inr c" by (simp add: deref_Cons)
  from "2.prems" have n: "c \<noteq> NUL" using assms(1) drop_Cons_mem by metis
  from "2.prems" have e: "drop (Suc p) fmt = []" by (simp add: drop_Suc_Cons)
  from "2.prems" have le: "Suc p \<le> length fmt" by (simp add: drop_Cons_le)
  from e le have p: "Suc p = length fmt" by simp
  from e le have d1: "deref fmt (Suc p) = Inr NUL" by (simp add: deref_Nil)
  have d2: "deref fmt (Suc (Suc p)) = Inl ReadPastEnd" using p by (simp add: deref_def)
  show ?case
  proof (cases "c = CHR ''%''")
    case True
    have "count_loop fmt p k = count_loop fmt (p + 2) (k + 1)"
      by (subst count_loop.simps) (simp add: count_step_def d d1 True)
    also have "\<dots> = Inl ReadPastEnd"
      by (subst count_loop.simps) (simp add: count_step_def d2)
    finally show ?thesis using True by simp
  next
    case False
    have "count_loop fmt p k = count_loop fmt (p + 1) k"
      by (subst count_loop.simps) (simp add: count_step_def d n False)
    also have "\<dots> = Inr k"
      by (subst count_loop.simps) (simp add: count_step_def d1)
    finally show ?thesis using False by simp
  qed
next
  case (3 c d cs)
  from "3.prems" have dc: "deref fmt p = Inr c" by (simp add: deref_Cons)
  from "3.prems" have n: "c \<noteq> NUL" using assms(1) drop_Cons_mem by metis
  from "3.prems" have e1: "drop (Suc p) fmt = d # cs" by (simp add: drop_Suc_Cons)
  then have dd: "deref fmt (Suc p) = Inr d" by (simp add: deref_Cons)
  from e1 have e2: "drop (Suc (Suc p)) fmt = cs" by (simp add: drop_Suc_Cons)
  from e1 have l2: "Suc (Suc p) \<le> length fmt" by (simp add: drop_Cons_le)
  then have l1: "Suc p \<le> length fmt" by simp
  show ?case
  proof (cases "c = CHR ''%''")
    case True
    have "count_loop fmt p k =
            count_loop fmt (Suc (Suc p)) (if d = CHR ''%'' then k else k + 1)"
      by (subst count_loop.simps) (simp add: count_step_def dc dd True n)
    also have "\<dots> = (if dangling_percent cs then Inl ReadPastEnd
                      else Inr ((if d = CHR ''%'' then k else k + 1) + int (count_specifiers cs)))"
      using "3.IH"(1) [OF True e2 l2] .
    finally show ?thesis using True by simp
  next
    case False
    have "count_loop fmt p k = count_loop fmt (Suc p) k"
      by (subst count_loop.simps) (simp add: count_step_def dc n False)
    also have "\<dots> = (if dangling_percent (d # cs) then Inl ReadPastEnd
                      else Inr (k + int (count_specifiers (d # cs))))"
      using "3.IH"(2) [OF False e1 l1] .
    finally show ?thesis using False by simp
  qed
qed

lemma only_escapes_closed: "only_escapes xs \<Longrightarrow> \<not> dangling_percent xs \<and> count_specifiers xs = 0"
  by (induction xs rule: only_escapes.induct) (auto split: if_splits)

lemma is_digit_plain: "is_digit c \<Longrightarrow> c \<noteq> NUL \<and> c \<noteq> CHR ''%'' \<and> c \<noteq> CHR ''.'' \<and> c \<noteq> CHR ''*''"
  by (auto simp: is_digit_def NUL_def)

lemma deref_nonNUL:
  assumes "NUL \<notin> set fmt" "deref fmt i = Inr c" "c \<noteq> NUL"
  shows "i < length fmt \<and> fmt ! i = c \<and> drop i fmt = c # drop (Suc i) fmt"
proof -
  from assms(2,3) have l: "i < length fmt" and e: "fmt ! i = c"
    by (auto simp: deref_def split: if_splits)
  with Cons_nth_drop_Suc [OF l] show ?thesis by simp
qed

lemma deref_NUL:
  assumes "NUL \<notin> set fmt" "deref fmt i = Inr NUL"
  shows "i = length fmt"
proof (rule ccontr)
  assume "i \<noteq> length fmt"
  with assms(2) have "i < length fmt" "fmt ! i = NUL"
    by (auto simp: deref_def split: if_splits)
  then have "NUL \<in> set fmt" by (metis nth_mem)
  with assms(1) show False by simp
qed

lemma deref_total: "i \<le> length fmt \<Longrightarrow> \<exists>c. deref fmt i = Inr c"
  by (simp add: deref_def)

lemma skip_digits_run:
  assumes "NUL \<notin> set fmt" "deref fmt i = Inr c"
  shows "\<exists>j c'. skip_digits fmt (Suc i) c = Inr (c', Suc j) \<and> i \<le> j \<and> deref fmt j = Inr c' \<and>
           (\<forall>k. i \<le> k \<and> k < j \<longrightarrow>
              k < length fmt \<and> fmt ! k \<noteq> CHR ''%'' \<and> fmt ! k \<noteq> CHR ''*'')"
  using assms(2)
proof (induction "length fmt - i" arbitrary: i c rule: less_induct)
  case less
  show ?case
  proof (cases "is_digit c")
    case True
    with is_digit_plain have cn: "c \<noteq> NUL" "c \<noteq> CHR ''%''" "c \<noteq> CHR ''*''" by blast+
    from deref_nonNUL [OF assms(1) less.prems cn(1)]
    have l: "i < length fmt" and e: "fmt ! i = c" by simp_all
    from l deref_total [of "Suc i" fmt] obtain c2 where c2: "deref fmt (Suc i) = Inr c2"
      by auto
    have u: "skip_digits fmt (Suc i) c = skip_digits fmt (Suc (Suc i)) c2"
      by (subst skip_digits.simps) (simp add: True c2)
    from l have m: "length fmt - Suc i < length fmt - i" by simp
    from less.hyps [OF m c2] obtain j c' where
      r: "skip_digits fmt (Suc (Suc i)) c2 = Inr (c', Suc j)" and
      j: "Suc i \<le> j" and dj: "deref fmt j = Inr c'" and
      pl: "\<forall>k. Suc i \<le> k \<and> k < j \<longrightarrow>
             k < length fmt \<and> fmt ! k \<noteq> CHR ''%'' \<and> fmt ! k \<noteq> CHR ''*''"
      by blast
    have pl': "\<forall>k. i \<le> k \<and> k < j \<longrightarrow>
                 k < length fmt \<and> fmt ! k \<noteq> CHR ''%'' \<and> fmt ! k \<noteq> CHR ''*''"
    proof (intro allI impI)
      fix k assume k: "i \<le> k \<and> k < j"
      show "k < length fmt \<and> fmt ! k \<noteq> CHR ''%'' \<and> fmt ! k \<noteq> CHR ''*''"
      proof (cases "k = i")
        case True
        with l e cn show ?thesis by simp
      next
        case False
        with k pl show ?thesis by simp
      qed
    qed
    from u r j dj pl' show ?thesis by auto
  next
    case False
    have "skip_digits fmt (Suc i) c = Inr (c, Suc i)"
      by (subst skip_digits.simps) (simp add: False)
    with less.prems show ?thesis by auto
  qed
qed

lemma read_precision_run:
  assumes "NUL \<notin> set fmt" "deref fmt i = Inr c"
  shows "read_precision fmt (Suc i) c = Inr None \<or>
         (\<exists>j c'. read_precision fmt (Suc i) c = Inr (Some (c', Suc j)) \<and> i \<le> j \<and>
            deref fmt j = Inr c' \<and>
            (\<forall>k. i \<le> k \<and> k < j \<longrightarrow>
               k < length fmt \<and> fmt ! k \<noteq> CHR ''%'' \<and> fmt ! k \<noteq> CHR ''*''))"
proof (cases "c = CHR ''.''")
  case False
  then have "read_precision fmt (Suc i) c = Inr (Some (c, Suc i))"
    by (simp add: read_precision_def)
  with assms(2) show ?thesis by auto
next
  case True
  then have cn: "c \<noteq> NUL" by (simp add: NUL_def)
  from deref_nonNUL [OF assms(1) assms(2) cn]
  have l: "i < length fmt" and e: "fmt ! i = c" by simp_all
  from l deref_total [of "Suc i" fmt] obtain c2 where c2: "deref fmt (Suc i) = Inr c2"
    by auto
  show ?thesis
  proof (cases "c2 = CHR ''*''")
    case s: True
    then show ?thesis by (simp add: read_precision_def True c2)
  next
    case s: False
    from skip_digits_run [OF assms(1) c2] obtain j c' where
      r: "skip_digits fmt (Suc (Suc i)) c2 = Inr (c', Suc j)" and
      j: "Suc i \<le> j" and dj: "deref fmt j = Inr c'" and
      pl: "\<forall>k. Suc i \<le> k \<and> k < j \<longrightarrow>
             k < length fmt \<and> fmt ! k \<noteq> CHR ''%'' \<and> fmt ! k \<noteq> CHR ''*''"
      by blast
    have u: "read_precision fmt (Suc i) c = Inr (Some (c', Suc j))"
      by (simp add: read_precision_def True c2 s r)
    have pl': "\<forall>k. i \<le> k \<and> k < j \<longrightarrow>
                 k < length fmt \<and> fmt ! k \<noteq> CHR ''%'' \<and> fmt ! k \<noteq> CHR ''*''"
    proof (intro allI impI)
      fix k assume k: "i \<le> k \<and> k < j"
      show "k < length fmt \<and> fmt ! k \<noteq> CHR ''%'' \<and> fmt ! k \<noteq> CHR ''*''"
      proof (cases "k = i")
        case k: True
        with l e True show ?thesis by simp
      next
        case False
        with k pl show ?thesis by simp
      qed
    qed
    from u j dj pl' show ?thesis by auto
  qed
qed

lemma read_size_run:
  assumes "NUL \<notin> set fmt" "deref fmt i = Inr c"
  shows "\<exists>ty j c'. read_size plat fmt (Suc i) c = Inr (ty, c', Suc j) \<and> i \<le> j \<and>
           deref fmt j = Inr c' \<and>
           (\<forall>k. i \<le> k \<and> k < j \<longrightarrow>
              k < length fmt \<and> fmt ! k \<noteq> CHR ''%'' \<and> fmt ! k \<noteq> CHR ''*'')"
proof (cases "c \<in> set ''hLlz''")
  case False
  then have "read_size plat fmt (Suc i) c = Inr (tidyFormatType_INTN, c, Suc i)"
    by (simp add: read_size_def)
  with assms(2) show ?thesis by auto
next
  case True
  then have cn: "c \<noteq> NUL" and cp: "c \<noteq> CHR ''%''" "c \<noteq> CHR ''*''" by (auto simp: NUL_def)
  from deref_nonNUL [OF assms(1) assms(2) cn]
  have l: "i < length fmt" and e: "fmt ! i = c" by simp_all
  from l deref_total [of "Suc i" fmt] obtain c2 where c2: "deref fmt (Suc i) = Inr c2"
    by auto
  have one: "\<forall>k. i \<le> k \<and> k < Suc i \<longrightarrow>
               k < length fmt \<and> fmt ! k \<noteq> CHR ''%'' \<and> fmt ! k \<noteq> CHR ''*''"
    using l e cp by (auto simp: less_Suc_eq_le)
  show ?thesis
  proof (cases "c = CHR ''l'' \<and> c2 = CHR ''l''")
    case False
    with True c2 have "\<exists>ty. read_size plat fmt (Suc i) c = Inr (ty, c2, Suc (Suc i))"
      by (auto simp: read_size_def)
    with c2 one show ?thesis by (metis le_SucI le_refl)
  next
    case ll: True
    then have "c2 \<noteq> NUL" and c2p: "c2 \<noteq> CHR ''%''" "c2 \<noteq> CHR ''*''"
      by (simp_all add: NUL_def)
    from deref_nonNUL [OF assms(1) c2 this(1)]
    have l2: "Suc i < length fmt" and e2: "fmt ! Suc i = c2" by simp_all
    from l2 deref_total [of "Suc (Suc i)" fmt] obtain c3 where
      c3: "deref fmt (Suc (Suc i)) = Inr c3" by auto
    have u: "read_size plat fmt (Suc i) c = Inr (tidyFormatType_INT64, c3, Suc (Suc (Suc i)))"
      using ll c2 c3 by (simp add: read_size_def)
    have two: "\<forall>k. i \<le> k \<and> k < Suc (Suc i) \<longrightarrow>
                 k < length fmt \<and> fmt ! k \<noteq> CHR ''%'' \<and> fmt ! k \<noteq> CHR ''*''"
    proof (intro allI impI)
      fix k assume "i \<le> k \<and> k < Suc (Suc i)"
      then have "k = i \<or> k = Suc i" by auto
      with l e cp l2 e2 c2p
      show "k < length fmt \<and> fmt ! k \<noteq> CHR ''%'' \<and> fmt ! k \<noteq> CHR ''*''" by auto
    qed
    from u c3 two show ?thesis by (metis le_SucI le_refl)
  qed
qed

lemma conversion_unknown_chars:
  "c \<notin> set ''dciouxXefgpSsn'' \<Longrightarrow> conversion_type plat c ty = tidyFormatType_UNKNOWN"
  by (simp add: conversion_type_def)

lemma conversion_known:
  assumes "conversion_type plat c ty \<noteq> tidyFormatType_UNKNOWN"
  shows "c \<noteq> NUL \<and> c \<noteq> CHR ''%'' \<and> c \<noteq> CHR ''*'' \<and> \<not> directive_char c"
proof -
  from assms conversion_unknown_chars have "c \<in> set ''dciouxXefgpSsn''" by blast
  then show ?thesis by (auto simp: directive_char_def NUL_def)
qed

lemma plain_ranges:
  assumes "\<forall>k::nat. a \<le> k \<and> k < b \<longrightarrow> P k" "\<forall>k. b \<le> k \<and> k < c \<longrightarrow> P k"
  shows "\<forall>k. a \<le> k \<and> k < c \<longrightarrow> P k"
proof (intro allI impI)
  fix k assume k: "a \<le> k \<and> k < c"
  show "P k"
  proof (cases "k < b")
    case True
    with k assms(1) show ?thesis by simp
  next
    case False
    with k assms(2) show ?thesis by simp
  qed
qed

lemma no_star_before_conversion:
  assumes "\<forall>k. i \<le> k \<and> k \<le> j \<longrightarrow> k < length fmt \<and> fmt ! k \<noteq> CHR ''*''"
    and "\<not> directive_char (fmt ! j)" and "i \<le> j"
  shows "\<not> dynamic_spec (drop i fmt)"
  using assms(1,3)
proof (induction "j - i" arbitrary: i)
  case 0
  then have "i = j" and l: "i < length fmt" by simp_all
  with Cons_nth_drop_Suc [OF l] assms(2) have "takeWhile directive_char (drop i fmt) = []"
    by (metis takeWhile.simps(2))
  then show ?case by (simp add: dynamic_spec_def)
next
  case (Suc n)
  then have l: "i < length fmt" and e: "fmt ! i \<noteq> CHR ''*''" and ij: "Suc i \<le> j" by simp_all
  from Suc.hyps(2) have n: "n = j - Suc i" by simp
  from Suc.prems(1) have "\<forall>k. Suc i \<le> k \<and> k \<le> j \<longrightarrow> k < length fmt \<and> fmt ! k \<noteq> CHR ''*''"
    by simp
  from Suc.hyps(1) [OF n this ij] have "\<not> dynamic_spec (drop (Suc i) fmt)" .
  with e show ?case
    by (simp add: dynamic_spec_def Cons_nth_drop_Suc [OF l, symmetric])
qed

lemma classify_spec_run:
  assumes nul: "NUL \<notin> set fmt" and c: "deref fmt i = Inr c"
    and cn: "0 \<le> cn + 1" "cn + 1 < int (length nas)"
  shows "(\<exists>nas'. classify_spec plat fmt (Suc i) c cn nas = Inr (Break nas')) \<or>
         (\<exists>j nas'. classify_spec plat fmt (Suc i) c cn nas = Inr (Next (Suc j) (cn + 1) nas') \<and>
            i \<le> j \<and> j < length fmt \<and> length nas' = length nas \<and>
            (\<forall>k. i \<le> k \<and> k \<le> j \<longrightarrow> k < length fmt \<and> fmt ! k \<noteq> CHR ''%'') \<and>
            \<not> dynamic_spec (drop i fmt))"
proof (cases "c = CHR ''*''")
  case True
  then show ?thesis by (simp add: classify_spec_def)
next
  case ns: False
  from skip_digits_run [OF nul c] obtain j1 c1 where
    sd: "skip_digits fmt (Suc i) c = Inr (c1, Suc j1)" and j1: "i \<le> j1" and
    d1: "deref fmt j1 = Inr c1" and
    p1: "\<forall>k. i \<le> k \<and> k < j1 \<longrightarrow>
           k < length fmt \<and> fmt ! k \<noteq> CHR ''%'' \<and> fmt ! k \<noteq> CHR ''*''"
    by blast
  from read_precision_run [OF nul d1]
  show ?thesis
  proof (elim disjE conjE exE)
    assume "read_precision fmt (Suc j1) c1 = Inr None"
    with ns sd show ?thesis by (simp add: classify_spec_def)
  next
    fix j2 c2
    assume rp: "read_precision fmt (Suc j1) c1 = Inr (Some (c2, Suc j2))" and j2: "j1 \<le> j2"
      and d2: "deref fmt j2 = Inr c2"
      and p2: "\<forall>k. j1 \<le> k \<and> k < j2 \<longrightarrow>
                 k < length fmt \<and> fmt ! k \<noteq> CHR ''%'' \<and> fmt ! k \<noteq> CHR ''*''"
    from read_size_run [OF nul d2, of plat] obtain ty j3 c3 where
      rs: "read_size plat fmt (Suc j2) c2 = Inr (ty, c3, Suc j3)" and j3: "j2 \<le> j3" and
      d3: "deref fmt j3 = Inr c3" and
      p3: "\<forall>k. j2 \<le> k \<and> k < j3 \<longrightarrow>
             k < length fmt \<and> fmt ! k \<noteq> CHR ''%'' \<and> fmt ! k \<noteq> CHR ''*''"
      by blast
    have pre: "\<forall>k. i \<le> k \<and> k < j3 \<longrightarrow>
                 k < length fmt \<and> fmt ! k \<noteq> CHR ''%'' \<and> fmt ! k \<noteq> CHR ''*''"
      by (rule plain_ranges [OF plain_ranges [OF p1 p2] p3])
    have ix: "\<not> (cn + 1 < 0 \<or> int (length nas) \<le> cn + 1)" using cn by simp
    show ?thesis
    proof (cases "FORMAT_LENGTH \<le> int (Suc j3) - (int (Suc i) - 2) \<or>
                  conversion_type plat c3 ty = tidyFormatType_UNKNOWN")
      case True
      then have "\<exists>nas'. classify_spec plat fmt (Suc i) c cn nas = Inr (Break nas')"
        using ns sd rp rs ix by (auto simp: classify_spec_def Let_def)
      then show ?thesis by simp
    next
      case False
      then have k: "conversion_type plat c3 ty \<noteq> tidyFormatType_UNKNOWN" by simp
      from conversion_known [OF k]
      have c3n: "c3 \<noteq> NUL" "c3 \<noteq> CHR ''%''" "c3 \<noteq> CHR ''*''" "\<not> directive_char c3"
        by simp_all
      from deref_nonNUL [OF nul d3 c3n(1)] have l3: "j3 < length fmt" "fmt ! j3 = c3"
        by simp_all
      have all: "\<forall>k. i \<le> k \<and> k \<le> j3 \<longrightarrow>
                   k < length fmt \<and> fmt ! k \<noteq> CHR ''%'' \<and> fmt ! k \<noteq> CHR ''*''"
      proof (intro allI impI)
        fix k assume k: "i \<le> k \<and> k \<le> j3"
        show "k < length fmt \<and> fmt ! k \<noteq> CHR ''%'' \<and> fmt ! k \<noteq> CHR ''*''"
        proof (cases "k = j3")
          case True
          with l3 c3n show ?thesis by simp
        next
          case False
          with k pre show ?thesis by simp
        qed
      qed
      from j1 j2 j3 have ij: "i \<le> j3" by simp
      from all have st: "\<forall>k. i \<le> k \<and> k \<le> j3 \<longrightarrow> k < length fmt \<and> fmt ! k \<noteq> CHR ''*''"
        by simp
      from c3n(4) l3(2) have "\<not> directive_char (fmt ! j3)" by simp
      from no_star_before_conversion [OF st this ij]
      have nd: "\<not> dynamic_spec (drop i fmt)" .
      from all have pc: "\<forall>k. i \<le> k \<and> k \<le> j3 \<longrightarrow> k < length fmt \<and> fmt ! k \<noteq> CHR ''%''"
        by simp
      from False have "\<exists>nas'. classify_spec plat fmt (Suc i) c cn nas =
                         Inr (Next (Suc j3) (cn + 1) nas') \<and> length nas' = length nas"
        using ns sd rp rs ix by (auto simp: classify_spec_def Let_def)
      with nd ij l3(1) pc show ?thesis by blast
    qed
  qed
qed

lemma has_dynamic_spec_plain: "c \<noteq> CHR ''%'' \<Longrightarrow> has_dynamic_spec (c # cs) = has_dynamic_spec cs"
  by (cases cs) simp_all

lemma dangling_percent_plain: "c \<noteq> CHR ''%'' \<Longrightarrow> dangling_percent (c # cs) = dangling_percent cs"
  by (cases cs) simp_all

lemma count_specifiers_plain: "c \<noteq> CHR ''%'' \<Longrightarrow> count_specifiers (c # cs) = count_specifiers cs"
  by (cases cs) simp_all

lemma skip_plain:
  assumes "\<forall>k. a \<le> k \<and> k < b \<longrightarrow> k < length fmt \<and> fmt ! k \<noteq> CHR ''%''" "a \<le> b"
  shows "has_dynamic_spec (drop a fmt) = has_dynamic_spec (drop b fmt) \<and>
         dangling_percent (drop a fmt) = dangling_percent (drop b fmt) \<and>
         count_specifiers (drop a fmt) = count_specifiers (drop b fmt)"
  using assms
proof (induction "b - a" arbitrary: a)
  case 0
  then show ?case by simp
next
  case (Suc n)
  then have ab: "a < b" by simp
  with Suc.prems(1) have l: "a < length fmt" and e: "fmt ! a \<noteq> CHR ''%''" by simp_all
  from Cons_nth_drop_Suc [OF l] have d: "drop a fmt = fmt ! a # drop (Suc a) fmt" by simp
  from Suc.hyps(2) have n: "n = b - Suc a" by simp
  from Suc.prems(1) have p: "\<forall>k. Suc a \<le> k \<and> k < b \<longrightarrow> k < length fmt \<and> fmt ! k \<noteq> CHR ''%''"
    by simp
  from ab have "Suc a \<le> b" by simp
  from Suc.hyps(1) [OF n p this] show ?case
    by (simp add: d has_dynamic_spec_plain [OF e] dangling_percent_plain [OF e] count_specifiers_plain [OF e])
qed

lemma classify_dynamic:
  assumes nul: "NUL \<notin> set fmt"
  shows "p \<le> length fmt \<Longrightarrow> has_dynamic_spec (drop p fmt) \<Longrightarrow> \<not> dangling_percent (drop p fmt) \<Longrightarrow>
         - 1 \<le> cn \<Longrightarrow> cn + 1 + int (count_specifiers (drop p fmt)) \<le> int (length nas) \<Longrightarrow>
         \<exists>nas'. classify_loop plat fmt p cn nas = Inr (- 1, nas')"
proof (induction "length fmt - p" arbitrary: p cn nas rule: less_induct)
  case less
  from less.prems(2) obtain c r where xs: "drop p fmt = c # r"
    by (cases "drop p fmt") simp_all
  then have dc: "deref fmt p = Inr c" by (rule deref_Cons)
  from xs nul drop_Cons_mem have cn0: "c \<noteq> NUL" by metis
  from xs have l1: "Suc p \<le> length fmt" by (rule drop_Cons_le)
  from xs have r: "drop (Suc p) fmt = r" by (rule drop_Suc_Cons)
  show ?case
  proof (cases "c = CHR ''%''")
    case False
    have u: "classify_loop plat fmt p cn nas = classify_loop plat fmt (Suc p) cn nas"
      by (subst classify_loop.simps) (simp add: dc cn0 False)
    from l1 have m: "length fmt - Suc p < length fmt - p" by simp
    from less.prems(2,3,5) have
      "has_dynamic_spec (drop (Suc p) fmt)" "\<not> dangling_percent (drop (Suc p) fmt)"
      "cn + 1 + int (count_specifiers (drop (Suc p) fmt)) \<le> int (length nas)"
      by (simp_all add: xs r has_dynamic_spec_plain [OF False] dangling_percent_plain [OF False]
            count_specifiers_plain [OF False])
    from less.hyps [OF m l1 this(1,2) less.prems(4) this(3)] u show ?thesis by simp
  next
    case True
    from less.prems(3) xs True obtain d r' where rr: "r = d # r'"
      by (cases r) simp_all
    with r have xs2: "drop (Suc p) fmt = d # r'" by simp
    then have dd: "deref fmt (Suc p) = Inr d" by (rule deref_Cons)
    from xs2 have l2: "Suc (Suc p) \<le> length fmt" by (rule drop_Cons_le)
    from xs2 have r2: "drop (Suc (Suc p)) fmt = r'" by (rule drop_Suc_Cons)
    from l2 have m2: "length fmt - Suc (Suc p) < length fmt - p" by simp
    show ?thesis
    proof (cases "d = CHR ''%''")
      case esc: True
      have u: "classify_loop plat fmt p cn nas = classify_loop plat fmt (Suc (Suc p)) cn nas"
        by (subst classify_loop.simps) (simp add: dc dd cn0 True esc)
      from less.prems(2,3,5) have
        "has_dynamic_spec (drop (Suc (Suc p)) fmt)" "\<not> dangling_percent (drop (Suc (Suc p)) fmt)"
        "cn + 1 + int (count_specifiers (drop (Suc (Suc p)) fmt)) \<le> int (length nas)"
        by (simp_all add: xs rr r2 True esc)
      from less.hyps [OF m2 l2 this(1,2) less.prems(4) this(3)] u show ?thesis by simp
    next
      case spec: False
      from less.prems(5) have room: "cn + 2 + int (count_specifiers r') \<le> int (length nas)"
        by (simp add: xs rr True spec)
      with less.prems(4) have ix: "0 \<le> cn + 1" "cn + 1 < int (length nas)" by simp_all
      have u: "classify_loop plat fmt p cn nas =
                 (case classify_spec plat fmt (Suc (Suc p)) d cn nas of
                    Inl e \<Rightarrow> Inl e
                  | Inr (Break nas') \<Rightarrow> Inr (- 1, nas')
                  | Inr (Next p' cn' nas') \<Rightarrow> classify_loop plat fmt p' cn' nas')"
        by (subst classify_loop.simps) (simp add: dc dd cn0 True spec)
      from classify_spec_run [OF nul dd ix, of plat]
      show ?thesis
      proof (elim disjE exE conjE)
        fix nas'
        assume "classify_spec plat fmt (Suc (Suc p)) d cn nas = Inr (Break nas')"
        with u show ?thesis by simp
      next
        fix j nas'
        assume nx: "classify_spec plat fmt (Suc (Suc p)) d cn nas = Inr (Next (Suc j) (cn + 1) nas')"
          and j: "Suc p \<le> j" and jl: "j < length fmt" and ln: "length nas' = length nas"
          and pl: "\<forall>k. Suc p \<le> k \<and> k \<le> j \<longrightarrow> k < length fmt \<and> fmt ! k \<noteq> CHR ''%''"
          and ns: "\<not> dynamic_spec (drop (Suc p) fmt)"
        from pl have pl': "\<forall>k. Suc (Suc p) \<le> k \<and> k < Suc j \<longrightarrow> k < length fmt \<and> fmt ! k \<noteq> CHR ''%''"
          by simp
        from j have "Suc (Suc p) \<le> Suc j" by simp
        from skip_plain [OF pl' this] r2 have
          sk: "has_dynamic_spec r' = has_dynamic_spec (drop (Suc j) fmt)"
              "dangling_percent r' = dangling_percent (drop (Suc j) fmt)"
              "count_specifiers r' = count_specifiers (drop (Suc j) fmt)"
          by simp_all
        from less.prems(2) ns xs2 have "has_dynamic_spec r'" by (simp add: xs rr True spec)
        with sk have a: "has_dynamic_spec (drop (Suc j) fmt)" by simp
        from less.prems(3) sk have b: "\<not> dangling_percent (drop (Suc j) fmt)"
          by (simp add: xs rr True)
        from room sk ln have c: "cn + 1 + 1 + int (count_specifiers (drop (Suc j) fmt)) \<le> int (length nas')"
          by simp
        from j jl have m: "length fmt - Suc j < length fmt - p" by simp
        from jl have l: "Suc j \<le> length fmt" by simp
        from less.prems(4) have "- 1 \<le> cn + 1" by simp
        from less.hyps [OF m l a b this c] u nx show ?thesis by simp
      qed
    qed
  qed
qed

lemma has_dynamic_spec_count_specifiers: "has_dynamic_spec xs \<Longrightarrow> 0 < count_specifiers xs"
  by (induction xs rule: has_dynamic_spec.induct) (auto split: if_splits)

lemma dangling_percent_last: "dangling_percent xs \<Longrightarrow> xs \<noteq> [] \<and> last xs = CHR ''%''"
  by (induction xs rule: dangling_percent.induct) (auto split: if_splits)

lemma skip_digits_stop: "\<not> is_digit c \<Longrightarrow> skip_digits fmt p c = Inr (c, p)"
  by (subst skip_digits.simps) simp

lemma read_precision_NUL: "read_precision fmt q NUL = Inr (Some (NUL, q))"
  by (simp add: read_precision_def NUL_def)

lemma read_size_NUL: "read_size plat fmt q NUL = Inr (tidyFormatType_INTN, NUL, q)"
  by (simp add: read_size_def NUL_def)

lemma strncpy_prefix:
  assumes "NUL \<notin> set xs"
  shows "strncpy (xs @ r) (length xs) = xs"
proof -
  from assms have "takeWhile (\<lambda>c. c \<noteq> NUL) (xs @ r) = xs @ takeWhile (\<lambda>c. c \<noteq> NUL) r"
    by (intro takeWhile_append2) auto
  then show ?thesis by (simp add: strncpy_def)
qed

lemma strncpy_short:
  assumes "NUL \<notin> set xs"
  shows "strncpy xs (Suc (length xs)) = xs @ [NUL]"
proof -
  from assms have "\<forall>x \<in> set xs. x \<noteq> NUL" by auto
  then have e: "takeWhile (\<lambda>c. c \<noteq> NUL) xs = xs"
    by (rule takeWhile_eq_all_conv [THEN iffD2])
  show ?thesis unfolding strncpy_def e by simp
qed

lemma classify_spec_at_terminator:
  assumes "0 \<le> cn + 1" "cn + 1 < int (length nas)" "length fmt = Suc n"
    and "last fmt = CHR ''%''"
  shows "classify_spec plat fmt (Suc (Suc n)) NUL cn nas =
           Inr (Break (nas[nat (cn + 1) := (nas ! nat (cn + 1))
                  \<lparr>type := tidyFormatType_UNKNOWN, formatStart := int n,
                   formatLength := 2, format := [CHR ''%'', NUL]\<rparr>]))"
proof -
  have d: "\<not> is_digit NUL" by (simp add: is_digit_def NUL_def)
  have c: "conversion_type plat NUL tidyFormatType_INTN = tidyFormatType_UNKNOWN"
    by (simp add: conversion_type_def NUL_def)
  from assms(3,4) have "drop n fmt = [CHR ''%'']"
    by (cases fmt rule: rev_cases) simp_all
  with strncpy_short [of "[CHR ''%'']"] have t: "strncpy (drop n fmt) 2 = [CHR ''%'', NUL]"
    by (simp add: numeral_2_eq_2)
  have st: "NUL \<noteq> CHR ''*''" by (simp add: NUL_def)
  show ?thesis
    using assms(1,2)
    by (simp add: classify_spec_def Let_def skip_digits_stop [OF d] read_precision_NUL
          read_size_NUL c st FORMAT_LENGTH_def t)
qed

lemma drop_append_step: "drop i fmt = xs @ ys \<Longrightarrow> drop (i + length xs) fmt = ys"
  by (metis append_eq_conv_conj drop_drop add.commute)

lemma skip_digits_fwd:
  assumes "list_all is_digit ds" "\<not> is_digit x"
  shows "drop i fmt = ds @ x # r \<Longrightarrow>
         skip_digits fmt (Suc i) (hd (ds @ [x])) = Inr (x, Suc (i + length ds))"
  using assms(1)
proof (induction ds arbitrary: i)
  case Nil
  then show ?case by (simp add: skip_digits_stop [OF assms(2)])
next
  case (Cons d ds)
  from Cons.prems(1) have n: "drop (Suc i) fmt = ds @ x # r" by (simp add: drop_Suc_Cons)
  then have "deref fmt (Suc i) = Inr (hd (ds @ x # r))"
    by (cases ds) (simp_all add: deref_Cons)
  then have dn: "deref fmt (Suc i) = Inr (hd (ds @ [x]))" by (cases ds) simp_all
  from Cons.prems(2) have dd: "is_digit d" and ds: "list_all is_digit ds" by simp_all
  have "skip_digits fmt (Suc i) d = skip_digits fmt (Suc (Suc i)) (hd (ds @ [x]))"
    by (subst skip_digits.simps) (simp add: dd dn)
  also from Cons.IH [OF n ds] have "\<dots> = Inr (x, Suc (Suc i + length ds))" .
  finally show ?case by simp
qed

lemma conversion_chars:
  assumes "c \<in> set ''diouxXcefgpsn''"
  shows "\<not> is_digit c" "c \<noteq> CHR ''.''" "c \<noteq> CHR ''*''" "c \<noteq> CHR ''%''" "c \<noteq> NUL"
        "c \<notin> set ''hLlz''"
  using assms by (auto simp: is_digit_def NUL_def)

lemma modifier_chars:
  assumes "c \<in> set ''hLlz''"
  shows "\<not> is_digit c" "c \<noteq> CHR ''.''" "c \<noteq> CHR ''*''" "c \<noteq> CHR ''%''" "c \<noteq> NUL"
  using assms by (auto simp: is_digit_def NUL_def)

lemma modifier_text_chars: "set (modifier_text m) \<subseteq> set ''hLlz''"
  by (cases m) (simp_all add: modifier_text_def)

lemma hd_modifier_conv:
  assumes "cv \<in> set ''diouxXcefgpsn''"
  shows "\<not> is_digit (hd (modifier_text m @ [cv]))"
        "hd (modifier_text m @ [cv]) \<noteq> CHR ''.''"
        "hd (modifier_text m @ [cv]) \<noteq> CHR ''*''"
  using assms by (cases m; auto simp: modifier_text_def is_digit_def)+

lemma read_size_fwd:
  assumes cv: "cv \<in> set ''diouxXcefgpsn''"
    and d: "drop i fmt = modifier_text m @ cv # r"
  shows "read_size plat fmt (Suc i) (hd (modifier_text m @ [cv])) =
           Inr (code_sized_kind plat m, cv, Suc (i + length (modifier_text m)))"
proof (cases m)
  case NoModifier
  with conversion_chars(6) [OF cv] show ?thesis
    by (simp add: modifier_text_def read_size_def code_sized_kind_def)
next
  case Mod_h
  with d have "drop (Suc i) fmt = cv # r" by (simp add: modifier_text_def drop_Suc_Cons)
  then have "deref fmt (Suc i) = Inr cv" by (rule deref_Cons)
  with Mod_h show ?thesis
    by (simp add: modifier_text_def read_size_def code_sized_kind_def)
next
  case Mod_L
  with d have "drop (Suc i) fmt = cv # r" by (simp add: modifier_text_def drop_Suc_Cons)
  then have "deref fmt (Suc i) = Inr cv" by (rule deref_Cons)
  with Mod_L show ?thesis
    by (simp add: modifier_text_def read_size_def code_sized_kind_def)
next
  case Mod_z
  with d have "drop (Suc i) fmt = cv # r" by (simp add: modifier_text_def drop_Suc_Cons)
  then have "deref fmt (Suc i) = Inr cv" by (rule deref_Cons)
  with Mod_z show ?thesis
    by (simp add: modifier_text_def read_size_def code_sized_kind_def)
next
  case Mod_l
  with d have "drop (Suc i) fmt = cv # r" by (simp add: modifier_text_def drop_Suc_Cons)
  then have "deref fmt (Suc i) = Inr cv" by (rule deref_Cons)
  moreover from conversion_chars(6) [OF cv] have "cv \<noteq> CHR ''l''" by simp
  ultimately show ?thesis using Mod_l
    by (simp add: modifier_text_def read_size_def code_sized_kind_def)
next
  case Mod_ll
  with d have a: "drop (Suc i) fmt = CHR ''l'' # cv # r"
    by (simp add: modifier_text_def drop_Suc_Cons)
  then have b: "drop (Suc (Suc i)) fmt = cv # r" by (simp add: drop_Suc_Cons)
  from a have "deref fmt (Suc i) = Inr (CHR ''l'')" by (rule deref_Cons)
  moreover from b have "deref fmt (Suc (Suc i)) = Inr cv" by (rule deref_Cons)
  ultimately show ?thesis using Mod_ll
    by (simp add: modifier_text_def read_size_def code_sized_kind_def)
qed

lemma read_precision_fwd:
  assumes cv: "cv \<in> set ''diouxXcefgpsn''"
    and pr: "case pr of None \<Rightarrow> True | Some ds \<Rightarrow> list_all is_digit ds"
    and d: "drop i fmt = precision_text pr @ modifier_text m @ cv # r"
  shows "read_precision fmt (Suc i) (hd (precision_text pr @ modifier_text m @ [cv])) =
           Inr (Some (hd (modifier_text m @ [cv]), Suc (i + length (precision_text pr))))"
proof (cases pr)
  case None
  with hd_modifier_conv(2) [OF cv, of m] show ?thesis
    by (simp add: precision_text_def read_precision_def)
next
  case (Some ds)
  with pr have dg: "list_all is_digit ds" by simp
  obtain x r' where xr: "modifier_text m @ cv # r = x # r'" and x: "x = hd (modifier_text m @ [cv])"
    by (cases "modifier_text m") simp_all
  from d Some have n: "drop (Suc i) fmt = ds @ x # r'"
    by (simp add: precision_text_def drop_Suc_Cons xr)
  then have "deref fmt (Suc i) = Inr (hd (ds @ x # r'))"
    by (cases ds) (simp_all add: deref_Cons)
  then have dn: "deref fmt (Suc i) = Inr (hd (ds @ [x]))" by (cases ds) simp_all
  from hd_modifier_conv [OF cv, of m] x have xn: "\<not> is_digit x" "x \<noteq> CHR ''*''" by simp_all
  have st: "hd (ds @ [x]) \<noteq> CHR ''*''"
  proof (cases ds)
    case Nil
    with xn show ?thesis by simp
  next
    case (Cons e es)
    with dg have "is_digit e" by simp
    with is_digit_plain Cons show ?thesis by auto
  qed
  from skip_digits_fwd [OF dg xn(1) n]
  have "skip_digits fmt (Suc (Suc i)) (hd (ds @ [x])) = Inr (x, Suc (Suc i + length ds))" .
  with Some dn st x show ?thesis
    by (simp add: precision_text_def read_precision_def)
qed

lemma conversion_type_table:
  assumes "cv \<in> set ''diouxXcefgpsn''" "sizeof_size_t plat = sizeof_voidp plat"
    "spec_conversion s = cv" "spec_modifier s = m"
  shows "conversion_type plat cv (code_sized_kind plat m) = table_kind plat s"
proof -
  from assms(2) have k: "code_sized_kind plat m = sized_kind plat m"
    by (simp add: code_sized_kind_def sized_kind_def)
  from assms(1) have "conversion_type plat cv (sized_kind plat m) =
      (if cv \<in> set ''diouxXc'' then sized_kind plat m
       else if cv \<in> set ''efg'' then tidyFormatType_DOUBLE
       else if cv = CHR ''p'' then pointer_kind plat
       else if cv = CHR ''s'' then tidyFormatType_STRING
       else if cv = CHR ''n'' then tidyFormatType_INTSTR
       else tidyFormatType_UNKNOWN)"
    by (auto simp: conversion_type_def pointer_kind_def)
  with k assms(3,4) show ?thesis by (simp add: table_kind_def)
qed

lemma specifier_body:
  assumes "supported_specifier plat s"
  shows "\<exists>b bs. specifier_text s = CHR ''%'' # b # bs \<and> CHR ''%'' \<notin> set (b # bs) \<and>
           NUL \<notin> set (b # bs)"
proof -
  define body where "body = spec_width s @ precision_text (spec_precision s) @
                        modifier_text (spec_modifier s) @ [spec_conversion s]"
  have st: "specifier_text s = CHR ''%'' # body" by (simp add: specifier_text_def body_def)
  from assms have w: "list_all is_digit (spec_width s)"
    and p: "case spec_precision s of None \<Rightarrow> True | Some ds \<Rightarrow> list_all is_digit ds"
    and c: "spec_conversion s \<in> set ''diouxXcefgpsn''"
    by (simp_all add: supported_specifier_def)
  have "\<forall>x \<in> set body. x \<noteq> CHR ''%'' \<and> x \<noteq> NUL"
  proof
    fix x assume "x \<in> set body"
    then consider "x \<in> set (spec_width s)" | "x \<in> set (precision_text (spec_precision s))"
      | "x \<in> set (modifier_text (spec_modifier s))" | "x = spec_conversion s"
      by (auto simp: body_def)
    then show "x \<noteq> CHR ''%'' \<and> x \<noteq> NUL"
    proof cases
      case 1
      with w have "is_digit x" by (simp add: list_all_iff)
      with is_digit_plain show ?thesis by blast
    next
      case 2
      then have "x = CHR ''.'' \<or> is_digit x"
        using p by (cases "spec_precision s") (auto simp: precision_text_def list_all_iff)
      with is_digit_plain show ?thesis by (auto simp: NUL_def)
    next
      case 3
      with modifier_text_chars have "x \<in> set ''hLlz''" by blast
      with modifier_chars show ?thesis by blast
    next
      case 4
      with c conversion_chars(4,5) [of x] show ?thesis by simp
    qed
  qed
  moreover have "body \<noteq> []" by (simp add: body_def)
  ultimately show ?thesis using st by (cases body) auto
qed

lemma classify_spec_valid:
  assumes sup: "supported_specifier plat s" and plat: "sizeof_size_t plat = sizeof_voidp plat"
    and f: "drop i fmt = specifier_text s @ r"
    and cn: "0 \<le> cn + 1" "cn + 1 < int (length nas)"
  shows "classify_spec plat fmt (Suc (Suc i)) (hd (tl (specifier_text s))) cn nas =
           Inr (Next (i + length (specifier_text s)) (cn + 1)
                  (nas[nat (cn + 1) := (nas ! nat (cn + 1))
                     \<lparr>type := table_kind plat s, formatStart := int i,
                      formatLength := int (length (specifier_text s)),
                      format := specifier_text s\<rparr>]))"
proof -
  define W where "W = spec_width s"
  define P where "P = precision_text (spec_precision s)"
  define M where "M = modifier_text (spec_modifier s)"
  define cv where "cv = spec_conversion s"
  define X2 where "X2 = hd (M @ [cv])"
  define X1 where "X1 = hd (P @ M @ [cv])"
  define C0 where "C0 = hd (W @ [X1])"
  define p1 where "p1 = Suc (Suc i + length W)"
  define p2 where "p2 = Suc (Suc i + length W + length P)"
  define p3 where "p3 = Suc (Suc i + length W + length P + length M)"
  have st: "specifier_text s = CHR ''%'' # W @ P @ M @ [cv]"
    by (simp add: specifier_text_def W_def P_def M_def cv_def)
  from sup have dW: "list_all is_digit W"
    and dP: "case spec_precision s of None \<Rightarrow> True | Some ds \<Rightarrow> list_all is_digit ds"
    and cv: "cv \<in> set ''diouxXcefgpsn''"
    and fl: "int (length (specifier_text s)) < FORMAT_LENGTH"
    and kn: "table_kind plat s \<noteq> tidyFormatType_UNKNOWN"
    by (simp_all add: supported_specifier_def W_def cv_def)
  from hd_modifier_conv [OF cv, of "spec_modifier s"]
  have x2: "\<not> is_digit X2" "X2 \<noteq> CHR ''.''" "X2 \<noteq> CHR ''*''"
    by (simp_all add: X2_def M_def)
  have x1: "\<not> is_digit X1 \<and> X1 \<noteq> CHR ''*''"
  proof (cases "spec_precision s")
    case None
    with x2 show ?thesis by (simp add: X1_def X2_def P_def precision_text_def)
  next
    case (Some ds)
    then show ?thesis by (simp add: X1_def P_def precision_text_def is_digit_def)
  qed
  have c0: "C0 \<noteq> CHR ''*''"
  proof (cases W)
    case Nil
    with x1 show ?thesis by (simp add: C0_def)
  next
    case (Cons e es)
    with dW have "is_digit e" by simp
    with is_digit_plain Cons show ?thesis by (auto simp: C0_def)
  qed
  have h: "hd (tl (specifier_text s)) = C0"
    by (cases W; cases P; cases M) (simp_all add: st C0_def X1_def)
  obtain r1 where r1: "P @ M @ cv # r = X1 # r1"
    by (cases P; cases M) (simp_all add: X1_def)
  from f have d0: "drop (Suc i) fmt = W @ P @ M @ cv # r"
    by (simp add: st drop_Suc_Cons)
  then have "drop (Suc i) fmt = W @ X1 # r1" by (simp add: r1)
  from skip_digits_fwd [OF dW conjunct1 [OF x1] this]
  have sd: "skip_digits fmt (Suc (Suc i)) C0 = Inr (X1, p1)"
    by (simp add: C0_def p1_def)
  from drop_append_step [OF d0] have d1: "drop (Suc i + length W) fmt = P @ M @ cv # r" .
  from read_precision_fwd [OF cv dP, of "Suc i + length W" fmt "spec_modifier s" r] d1
  have rp: "read_precision fmt p1 X1 = Inr (Some (X2, p2))"
    by (simp add: P_def M_def X1_def X2_def p1_def p2_def)
  from d1 have "drop (Suc i + length W) fmt = P @ (M @ cv # r)" by simp
  from drop_append_step [OF this]
  have d2: "drop (Suc i + length W + length P) fmt = M @ cv # r" .
  from read_size_fwd [OF cv, of "Suc i + length W + length P" fmt "spec_modifier s" r plat] d2
  have rs: "read_size plat fmt p2 X2 = Inr (code_sized_kind plat (spec_modifier s), cv, p3)"
    by (simp add: M_def X2_def p2_def p3_def)
  have ct: "conversion_type plat cv (code_sized_kind plat (spec_modifier s)) = table_kind plat s"
    by (rule conversion_type_table [OF cv plat]) (simp_all add: cv_def)
  have len: "length (specifier_text s) = Suc (Suc (length W + length P + length M))"
    by (simp add: st)
  have p3: "p3 = i + length (specifier_text s)" by (simp add: p3_def len)
  have fl': "int p3 - (int (Suc (Suc i)) - 2) = int (length (specifier_text s))"
    by (simp add: p3)
  have ps: "nat (int (Suc (Suc i)) - 2) = i" by simp
  from specifier_body [OF sup] have "NUL \<notin> set (specifier_text s)" by auto
  from strncpy_prefix [OF this, of r] f
  have tk: "strncpy (drop i fmt) (length (specifier_text s)) = specifier_text s" by simp
  have ix: "\<not> (cn + 1 < 0 \<or> int (length nas) \<le> cn + 1)" using cn by simp
  have pp: "int (Suc (Suc i)) - 2 = int i" by simp
  show ?thesis
    unfolding classify_spec_def h
    using c0 ix fl kn
    by (simp only: Let_def sd rp rs ct fl' ps tk pp p3 if_False sum.case prod.case option.case
          nat_int not_le [symmetric] refl if_True)
       (simp add: tk)
qed

lemma format_text_Cons: "format_text (it # items) = item_text it @ format_text items"
  by (simp add: format_text_def)

lemma format_text_Nil: "format_text [] = []"
  by (simp add: format_text_def)

lemma expected_fresh:
  "fresh_arg\<lparr>type := k, formatStart := a, formatLength := b, format := t\<rparr> =
   \<lparr>type = k, formatStart = a, formatLength = b, format = t, u = U_none\<rparr>"
  by (simp add: fresh_arg_def)

lemma plain_prefix:
  "CHR ''%'' \<notin> set xs \<Longrightarrow>
   count_specifiers (xs @ ys) = count_specifiers ys \<and>
   dangling_percent (xs @ ys) = dangling_percent ys"
proof (induction xs)
  case Nil
  show ?case by simp
next
  case (Cons a xs)
  then have a: "a \<noteq> CHR ''%''" and r: "CHR ''%'' \<notin> set xs" by auto
  from Cons.IH [OF r] show ?case
    by (simp add: count_specifiers_plain [OF a] dangling_percent_plain [OF a])
qed

lemma count_format_text:
  "list_all (supported_item plat) items \<Longrightarrow>
   count_specifiers (format_text items) = length (specifiers_of items) \<and>
   \<not> dangling_percent (format_text items) \<and> NUL \<notin> set (format_text items)"
proof (induction items)
  case Nil
  then show ?case by (simp add: format_text_Nil)
next
  case (Cons it items)
  then have ih: "count_specifiers (format_text items) = length (specifiers_of items)"
    "\<not> dangling_percent (format_text items)" "NUL \<notin> set (format_text items)"
    by simp_all
  show ?case
  proof (cases it)
    case (Literal c)
    with Cons.prems have "c \<noteq> CHR ''%''" "c \<noteq> NUL" by simp_all
    with ih Literal show ?thesis
      by (simp add: format_text_Cons count_specifiers_plain dangling_percent_plain)
  next
    case Escape
    with ih show ?thesis by (simp add: format_text_Cons)
  next
    case (Specifier s)
    with Cons.prems have "supported_specifier plat s" by simp
    from specifier_body [OF this] obtain b bs where
      st: "specifier_text s = CHR ''%'' # b # bs" and np: "CHR ''%'' \<notin> set (b # bs)"
      and nn: "NUL \<notin> set (b # bs)" by blast
    from np have "CHR ''%'' \<notin> set bs" and b: "b \<noteq> CHR ''%''" by auto
    from plain_prefix [OF this(1), of "format_text items"] b nn ih Specifier st
    show ?thesis by (simp add: format_text_Cons)
  qed
qed

lemma classify_loop_valid:
  assumes plat: "sizeof_size_t plat = sizeof_voidp plat"
  shows "list_all (supported_item plat) items \<Longrightarrow> length (specifiers_of items) \<le> k \<Longrightarrow>
     classify_loop plat (pre @ format_text items) (length pre) (int (length done) - 1)
       (done @ replicate k fresh_arg) =
     Inr (0, done @ expected_descriptors plat (length pre) items @
                replicate (k - length (specifiers_of items)) fresh_arg)"
proof (induction items arbitrary: pre "done" k)
  case Nil
  show ?case
    by (subst classify_loop.simps) (simp add: format_text_Nil deref_def)
next
  case (Cons it items)
  from Cons.prems(1) have rest: "list_all (supported_item plat) items" by simp
  show ?case
  proof (cases it)
    case (Literal c)
    with Cons.prems have c: "c \<noteq> CHR ''%''" "c \<noteq> NUL" and k: "length (specifiers_of items) \<le> k"
      by simp_all
    define fmt where "fmt = pre @ format_text (it # items)"
    have e: "fmt = (pre @ [c]) @ format_text items"
      by (simp add: fmt_def format_text_Cons Literal)
    then have d: "deref fmt (length pre) = Inr c"
      by (simp add: deref_def nth_append)
    have "classify_loop plat fmt (length pre) (int (length done) - 1)
            (done @ replicate k fresh_arg) =
          classify_loop plat fmt (length (pre @ [c])) (int (length done) - 1)
            (done @ replicate k fresh_arg)"
      by (subst classify_loop.simps) (simp add: d c)
    also from Cons.IH [OF rest k, of "pre @ [c]" "done"]
    have "\<dots> = Inr (0, done @ expected_descriptors plat (length (pre @ [c])) items @
                    replicate (k - length (specifiers_of items)) fresh_arg)"
      by (simp only: e)
    finally show ?thesis by (simp add: fmt_def Literal)
  next
    case Escape
    with Cons.prems have k: "length (specifiers_of items) \<le> k" by simp
    define fmt where "fmt = pre @ format_text (it # items)"
    have e: "fmt = (pre @ ''%%'') @ format_text items"
      by (simp add: fmt_def format_text_Cons Escape)
    then have d: "deref fmt (length pre) = Inr (CHR ''%'')"
      "deref fmt (Suc (length pre)) = Inr (CHR ''%'')"
      by (simp_all add: deref_def nth_append)
    have "classify_loop plat fmt (length pre) (int (length done) - 1)
            (done @ replicate k fresh_arg) =
          classify_loop plat fmt (length (pre @ ''%%'')) (int (length done) - 1)
            (done @ replicate k fresh_arg)"
      by (subst classify_loop.simps) (simp add: d)
    also from Cons.IH [OF rest k, of "pre @ ''%%''" "done"]
    have "\<dots> = Inr (0, done @ expected_descriptors plat (length (pre @ ''%%'')) items @
                    replicate (k - length (specifiers_of items)) fresh_arg)"
      by (simp only: e)
    finally show ?thesis by (simp add: fmt_def Escape)
  next
    case (Specifier s)
    with Cons.prems have sup: "supported_specifier plat s"
      and k: "Suc (length (specifiers_of items)) \<le> k" by simp_all
    then obtain k' where k': "k = Suc k'" and kk: "length (specifiers_of items) \<le> k'"
      by (cases k) simp_all
    from specifier_body [OF sup] obtain b bs where
      st: "specifier_text s = CHR ''%'' # b # bs" and np: "CHR ''%'' \<notin> set (b # bs)" by blast
    define fmt where "fmt = pre @ format_text (it # items)"
    have e: "fmt = (pre @ specifier_text s) @ format_text items"
      by (simp add: fmt_def format_text_Cons Specifier)
    then have dr: "drop (length pre) fmt = specifier_text s @ format_text items" by simp
    from dr have d0: "deref fmt (length pre) = Inr (CHR ''%'')"
      by (simp add: st deref_Cons)
    from dr have "drop (Suc (length pre)) fmt = b # bs @ format_text items"
      by (simp add: st drop_Suc_Cons)
    then have d1: "deref fmt (Suc (length pre)) = Inr b" by (rule deref_Cons)
    from np have b: "b \<noteq> CHR ''%''" by auto
    have hb: "hd (tl (specifier_text s)) = b" by (simp add: st)
    define e0 where "e0 = \<lparr>type = table_kind plat s, formatStart = int (length pre),
        formatLength = int (length (specifier_text s)), format = specifier_text s, u = U_none\<rparr>"
    have ix: "0 \<le> int (length done) - 1 + 1"
      "int (length done) - 1 + 1 < int (length (done @ replicate k fresh_arg))"
      by (simp_all add: k')
    have up: "(done @ replicate k fresh_arg)[nat (int (length done) - 1 + 1) :=
                ((done @ replicate k fresh_arg) ! nat (int (length done) - 1 + 1))
                  \<lparr>type := table_kind plat s, formatStart := int (length pre),
                   formatLength := int (length (specifier_text s)),
                   format := specifier_text s\<rparr>] =
              (done @ [e0]) @ replicate k' fresh_arg"
      by (simp add: k' nth_append list_update_append expected_fresh e0_def)
    from classify_spec_valid [OF sup plat dr ix] up
    have cs: "classify_spec plat fmt (Suc (Suc (length pre))) b (int (length done) - 1)
                (done @ replicate k fresh_arg) =
              Inr (Next (length (pre @ specifier_text s)) (int (length (done @ [e0])) - 1)
                     ((done @ [e0]) @ replicate k' fresh_arg))"
      by (simp add: hb)
    have "classify_loop plat fmt (length pre) (int (length done) - 1)
            (done @ replicate k fresh_arg) =
          classify_loop plat fmt (length (pre @ specifier_text s))
            (int (length (done @ [e0])) - 1) ((done @ [e0]) @ replicate k' fresh_arg)"
      by (subst classify_loop.simps) (simp add: d0 d1 b cs)
    also from Cons.IH [OF rest kk, of "pre @ specifier_text s" "done @ [e0]"]
    have "\<dots> = Inr (0, (done @ [e0]) @
                    expected_descriptors plat (length (pre @ specifier_text s)) items @
                    replicate (k' - length (specifiers_of items)) fresh_arg)"
      by (simp only: e)
    finally show ?thesis
      by (simp add: fmt_def Specifier e0_def k')
  qed
qed

lemma consume_arg_ok:
  assumes "class_matches (type a) v" "type a \<noteq> tidyFormatType_UNKNOWN"
    "type a \<noteq> tidyFormatType_WSTRING"
  shows "\<exists>x. consume_arg plat a (v # rest) = Inr (Some (a\<lparr>u := x\<rparr>, rest))"
proof (cases v)
  case (V_integer n)
  with assms(1) have "consume_arg plat a (v # rest) =
      Inr (Some (a\<lparr>u := (case type a of
          tidyFormatType_UINTN \<Rightarrow> U_ui (to_unsigned (int_bits plat) n)
        | tidyFormatType_INT32 \<Rightarrow> U_i32 (to_signed 32 n)
        | tidyFormatType_UINT32 \<Rightarrow> U_ui32 (to_unsigned 32 n)
        | tidyFormatType_INT64 \<Rightarrow> U_ll (to_signed 64 n)
        | tidyFormatType_UINT64 \<Rightarrow> U_ull (to_unsigned 64 n)
        | _ \<Rightarrow> U_i (to_signed (int_bits plat) n))\<rparr>, rest))"
    by (auto simp: class_matches_def consume_arg_def store_int_def va_arg_int_def)
  then show ?thesis by blast
next
  case (V_double d)
  with assms(1) have "consume_arg plat a (v # rest) = Inr (Some (a\<lparr>u := U_d d\<rparr>, rest))"
    by (simp add: class_matches_def consume_arg_def)
  then show ?thesis by blast
next
  case (V_charp s)
  with assms(1) have "consume_arg plat a (v # rest) = Inr (Some (a\<lparr>u := U_s s\<rparr>, rest))"
    by (simp add: class_matches_def consume_arg_def)
  then show ?thesis by blast
next
  case (V_size_tp q)
  with assms(1) have "consume_arg plat a (v # rest) = Inr (Some (a\<lparr>u := U_ip q\<rparr>, rest))"
    by (simp add: class_matches_def consume_arg_def)
  then show ?thesis by blast
next
  case (V_wcharp w)
  with assms(1,3) show ?thesis by (simp add: class_matches_def)
qed

lemma consume_loop_ok:
  "n \<le> length nas \<Longrightarrow> arguments_match (map type (drop n nas)) ap \<Longrightarrow>
   \<forall>a \<in> set (drop n nas). type a \<noteq> tidyFormatType_UNKNOWN \<and> type a \<noteq> tidyFormatType_WSTRING \<Longrightarrow>
   \<exists>nas'. consume_loop plat nas (int n) (int (length nas)) ap = Inr (Some nas') \<and>
          map (\<lambda>a. a\<lparr>u := U_none\<rparr>) nas' = map (\<lambda>a. a\<lparr>u := U_none\<rparr>) nas"
proof (induction "length nas - n" arbitrary: n nas ap)
  case 0
  then have "n = length nas" by simp
  then show ?case by (subst consume_loop.simps) simp
next
  case (Suc m)
  then have l: "n < length nas" by simp
  from Cons_nth_drop_Suc [OF l] have d: "drop n nas = nas ! n # drop (Suc n) nas" by simp
  from Suc.prems(3) d have ty: "type (nas ! n) \<noteq> tidyFormatType_UNKNOWN"
    "type (nas ! n) \<noteq> tidyFormatType_WSTRING"
    by (metis list.set_intros(1))+
  from Suc.prems(2) d obtain v rest where ap: "ap = v # rest"
    and cm: "class_matches (type (nas ! n)) v"
    and am: "arguments_match (map type (drop (Suc n) nas)) rest"
    by (cases ap) simp_all
  from consume_arg_ok [OF cm ty] obtain x where
    ca: "consume_arg plat (nas ! n) (v # rest) = Inr (Some ((nas ! n)\<lparr>u := x\<rparr>, rest))"
    by blast
  define nas2 where "nas2 = nas[n := (nas ! n)\<lparr>u := x\<rparr>]"
  have len: "length nas2 = length nas" by (simp add: nas2_def)
  have dr: "drop (Suc n) nas2 = drop (Suc n) nas" by (simp add: nas2_def)
  have u: "consume_loop plat nas (int n) (int (length nas)) ap =
           consume_loop plat nas2 (int (Suc n)) (int (length nas2)) rest"
    using l ty
    by (subst consume_loop.simps) (simp add: ap ca nas2_def add.commute)
  from Suc.hyps(2) l have m: "m = length nas2 - Suc n" by (simp add: len)
  from l have le: "Suc n \<le> length nas2" by (simp add: len)
  from Suc.prems(3) d have
    r: "\<forall>a \<in> set (drop (Suc n) nas2).
          type a \<noteq> tidyFormatType_UNKNOWN \<and> type a \<noteq> tidyFormatType_WSTRING"
    by (simp add: dr)
  from am have am': "arguments_match (map type (drop (Suc n) nas2)) rest" by (simp add: dr)
  from Suc.hyps(1) [OF m le am' r] obtain nas' where
    c: "consume_loop plat nas2 (int (Suc n)) (int (length nas2)) rest = Inr (Some nas')" and
    e: "map (\<lambda>a. a\<lparr>u := U_none\<rparr>) nas' = map (\<lambda>a. a\<lparr>u := U_none\<rparr>) nas2"
    by blast
  have "map (\<lambda>a. a\<lparr>u := U_none\<rparr>) nas2 = map (\<lambda>a. a\<lparr>u := U_none\<rparr>) nas"
    using l by (simp add: nas2_def map_update list_update_same_conv)
  with u c e show ?case by simp
qed

lemma expected_kinds:
  "map type (expected_descriptors plat off items) = map (table_kind plat) (specifiers_of items)"
  by (induction plat off items rule: expected_descriptors.induct) simp_all

lemma expected_u: "map (\<lambda>a. a\<lparr>u := U_none\<rparr>) (expected_descriptors plat off items) =
                   expected_descriptors plat off items"
  by (induction plat off items rule: expected_descriptors.induct) simp_all

lemma table_kind_not_wide: "table_kind plat s \<noteq> tidyFormatType_WSTRING"
  by (simp add: table_kind_def sized_kind_def pointer_kind_def split: length_modifier.splits)

lemma supported_kinds:
  "list_all (supported_item plat) items \<Longrightarrow>
   \<forall>a \<in> set (expected_descriptors plat off items).
     type a \<noteq> tidyFormatType_UNKNOWN \<and> type a \<noteq> tidyFormatType_WSTRING"
proof (induction plat off items rule: expected_descriptors.induct)
  case (4 plat off s items)
  then have "table_kind plat s \<noteq> tidyFormatType_UNKNOWN"
    by (simp add: supported_specifier_def)
  with 4 table_kind_not_wide [of plat s] show ?case by simp
qed simp_all

lemma count_iter_dangling:
  assumes "NUL \<notin> set fmt"
  shows "drop p fmt = xs \<Longrightarrow> dangling_percent xs \<Longrightarrow>
         \<exists>n. count_iter n fmt p k = Inr (Some (length fmt + 1, k + int (count_specifiers xs)))"
proof (induction xs arbitrary: p k rule: dangling_percent.induct)
  case 1
  then show ?case by simp
next
  case (2 c)
  then have c: "c = CHR ''%''" by simp
  from "2.prems"(1) have d: "deref fmt p = Inr c" by (simp add: deref_Cons)
  from "2.prems"(1) have e: "drop (Suc p) fmt = []" by (simp add: drop_Suc_Cons)
  from "2.prems"(1) have le: "Suc p \<le> length fmt" by (simp add: drop_Cons_le)
  from e le have p: "Suc p = length fmt" by simp
  from e le have d1: "deref fmt (Suc p) = Inr NUL" by (simp add: deref_Nil)
  have "count_step fmt p k = Inr (Some (Suc (Suc p), k + 1))"
    by (simp add: count_step_def d d1 c)
  then have "count_iter (Suc 0) fmt p k = Inr (Some (Suc (Suc p), k + 1))" by simp
  with p have "count_iter (Suc 0) fmt p k = Inr (Some (length fmt + 1, k + 1))" by simp
  with c show ?case by (metis count_specifiers.simps(2) of_nat_1)
next
  case (3 c d cs)
  from "3.prems"(1) have dc: "deref fmt p = Inr c" by (simp add: deref_Cons)
  from "3.prems"(1) have n: "c \<noteq> NUL" using assms drop_Cons_mem by metis
  from "3.prems"(1) have e1: "drop (Suc p) fmt = d # cs" by (simp add: drop_Suc_Cons)
  then have dd: "deref fmt (Suc p) = Inr d" by (simp add: deref_Cons)
  from e1 have e2: "drop (Suc (Suc p)) fmt = cs" by (simp add: drop_Suc_Cons)
  show ?case
  proof (cases "c = CHR ''%''")
    case True
    with "3.prems"(2) have dg: "dangling_percent cs" by simp
    define k' where "k' = (if d = CHR ''%'' then k else k + 1)"
    have s: "count_step fmt p k = Inr (Some (Suc (Suc p), k'))"
      by (simp add: count_step_def dc dd True n k'_def)
    from "3.IH"(1) [OF True e2 dg, of k'] obtain m where
      "count_iter m fmt (Suc (Suc p)) k' = Inr (Some (length fmt + 1, k' + int (count_specifiers cs)))"
      by blast
    with s have "count_iter (Suc m) fmt p k =
                   Inr (Some (length fmt + 1, k' + int (count_specifiers cs)))"
      by simp
    moreover have "k' + int (count_specifiers cs) = k + int (count_specifiers (c # d # cs))"
      by (simp add: k'_def True)
    ultimately show ?thesis by metis
  next
    case False
    with "3.prems"(2) have dg: "dangling_percent (d # cs)" by simp
    have s: "count_step fmt p k = Inr (Some (Suc p, k))"
      by (simp add: count_step_def dc False n)
    from "3.IH"(2) [OF False e1 dg, of k] obtain m where
      "count_iter m fmt (Suc p) k = Inr (Some (length fmt + 1, k + int (count_specifiers (d # cs))))"
      by blast
    with s have "count_iter (Suc m) fmt p k =
                   Inr (Some (length fmt + 1, k + int (count_specifiers (d # cs))))"
      by simp
    moreover have "count_specifiers (c # d # cs) = count_specifiers (d # cs)"
      using False by simp
    ultimately show ?thesis by metis
  qed
qed

lemma classify_dangling:
  assumes nul: "NUL \<notin> set fmt"
  shows "p \<le> length fmt \<Longrightarrow> dangling_percent (drop p fmt) \<Longrightarrow>
         - 1 \<le> cn \<Longrightarrow> cn + 1 + int (count_specifiers (drop p fmt)) \<le> int (length nas) \<Longrightarrow>
         \<exists>nas'. classify_loop plat fmt p cn nas = Inr (- 1, nas')"
proof (induction "length fmt - p" arbitrary: p cn nas rule: less_induct)
  case less
  from less.prems(2) obtain c r where xs: "drop p fmt = c # r"
    by (cases "drop p fmt") simp_all
  then have dc: "deref fmt p = Inr c" by (rule deref_Cons)
  from xs nul drop_Cons_mem have cn0: "c \<noteq> NUL" by metis
  from xs have l1: "Suc p \<le> length fmt" by (rule drop_Cons_le)
  from xs have r: "drop (Suc p) fmt = r" by (rule drop_Suc_Cons)
  show ?case
  proof (cases "c = CHR ''%''")
    case False
    have u: "classify_loop plat fmt p cn nas = classify_loop plat fmt (Suc p) cn nas"
      by (subst classify_loop.simps) (simp add: dc cn0 False)
    from l1 have m: "length fmt - Suc p < length fmt - p" by simp
    from less.prems(2,4) have
      "dangling_percent (drop (Suc p) fmt)"
      "cn + 1 + int (count_specifiers (drop (Suc p) fmt)) \<le> int (length nas)"
      by (simp_all add: xs r dangling_percent_plain [OF False] count_specifiers_plain [OF False])
    from less.hyps [OF m l1 this(1) less.prems(3) this(2)] u show ?thesis by simp
  next
    case True
    show ?thesis
    proof (cases r)
      case Nil
      with r l1 have len: "length fmt = Suc p" by simp
      from xs Nil True len have la: "last fmt = CHR ''%''"
        by (metis Suc_leI append_take_drop_id last_appendR last_snoc lessI list.discI self_append_conv2)
      from len have d1: "deref fmt (Suc p) = Inr NUL" by (simp add: deref_def)
      from less.prems(4) have "cn + 2 \<le> int (length nas)" by (simp add: xs Nil True)
      with less.prems(3) have ix: "0 \<le> cn + 1" "cn + 1 < int (length nas)" by simp_all
      show ?thesis
        by (subst classify_loop.simps)
           (simp add: dc d1 True classify_spec_at_terminator [OF ix len la])
    next
      case (Cons d r')
      with r have xs2: "drop (Suc p) fmt = d # r'" by simp
      then have dd: "deref fmt (Suc p) = Inr d" by (rule deref_Cons)
      from xs2 have l2: "Suc (Suc p) \<le> length fmt" by (rule drop_Cons_le)
      from xs2 have r2: "drop (Suc (Suc p)) fmt = r'" by (rule drop_Suc_Cons)
      from l2 have m2: "length fmt - Suc (Suc p) < length fmt - p" by simp
      show ?thesis
      proof (cases "d = CHR ''%''")
        case esc: True
        have u: "classify_loop plat fmt p cn nas = classify_loop plat fmt (Suc (Suc p)) cn nas"
          by (subst classify_loop.simps) (simp add: dc dd cn0 True esc)
        from less.prems(2,4) have
          "dangling_percent (drop (Suc (Suc p)) fmt)"
          "cn + 1 + int (count_specifiers (drop (Suc (Suc p)) fmt)) \<le> int (length nas)"
          by (simp_all add: xs Cons r2 True esc)
        from less.hyps [OF m2 l2 this(1) less.prems(3) this(2)] u show ?thesis by simp
      next
        case spec: False
        from less.prems(4) have room: "cn + 2 + int (count_specifiers r') \<le> int (length nas)"
          by (simp add: xs Cons True spec)
        with less.prems(3) have ix: "0 \<le> cn + 1" "cn + 1 < int (length nas)" by simp_all
        have u: "classify_loop plat fmt p cn nas =
                   (case classify_spec plat fmt (Suc (Suc p)) d cn nas of
                      Inl e \<Rightarrow> Inl e
                    | Inr (Break nas') \<Rightarrow> Inr (- 1, nas')
                    | Inr (Next p' cn' nas') \<Rightarrow> classify_loop plat fmt p' cn' nas')"
          by (subst classify_loop.simps) (simp add: dc dd cn0 True spec)
        from classify_spec_run [OF nul dd ix, of plat]
        show ?thesis
        proof (elim disjE exE conjE)
          fix nas'
          assume "classify_spec plat fmt (Suc (Suc p)) d cn nas = Inr (Break nas')"
          with u show ?thesis by simp
        next
          fix j nas'
          assume nx: "classify_spec plat fmt (Suc (Suc p)) d cn nas = Inr (Next (Suc j) (cn + 1) nas')"
            and j: "Suc p \<le> j" and jl: "j < length fmt" and ln: "length nas' = length nas"
            and pl: "\<forall>k. Suc p \<le> k \<and> k \<le> j \<longrightarrow> k < length fmt \<and> fmt ! k \<noteq> CHR ''%''"
          from pl have pl': "\<forall>k. Suc (Suc p) \<le> k \<and> k < Suc j \<longrightarrow> k < length fmt \<and> fmt ! k \<noteq> CHR ''%''"
            by simp
          from j have "Suc (Suc p) \<le> Suc j" by simp
          from skip_plain [OF pl' this] r2 have
            sk: "dangling_percent r' = dangling_percent (drop (Suc j) fmt)"
                "count_specifiers r' = count_specifiers (drop (Suc j) fmt)"
            by simp_all
          from less.prems(2) sk have b: "dangling_percent (drop (Suc j) fmt)"
            by (simp add: xs Cons True)
          from room sk ln have c: "cn + 1 + 1 + int (count_specifiers (drop (Suc j) fmt)) \<le> int (length nas')"
            by simp
          from j jl have m: "length fmt - Suc j < length fmt - p" by simp
          from jl have l: "Suc j \<le> length fmt" by simp
          from less.prems(3) have "- 1 \<le> cn + 1" by simp
          from less.hyps [OF m l b this c] u nx show ?thesis by simp
        qed
      qed
    qed
  qed
qed









section \<open>Properties of the message assembler\<close>

text \<open>
  C3. Claimed: for a level above \<^verbatim>\<open>TidyFatal\<close> (a dialogue level) none of the three
  callbacks is called. The code gates only \<^verbatim>\<open>reportFilter\<close> and \<^verbatim>\<open>reportCallback\<close>
  by \<^verbatim>\<open>level <= TidyFatal\<close>; \<^verbatim>\<open>messageCallback\<close> is called whenever it is
  registered. Constructing a record at level 357 for a document with all three
  callbacks registered calls the message callback, and only it.
\<close>

theorem dialog_severity_reaches_message_callback:
  "map_sum id snd
     (tidyMessageCreateInitV ext_sample plat_lp64 doc_observed None 1 5 10 357 [V_integer 42]) =
   Inr [(MessageCallback, True)]"
  by code_simp

text \<open>
  C3, as the code has it: in every construction that returns a record, the legacy
  filter and the legacy key callback are called exactly when they are registered and
  the level is at most \<^verbatim>\<open>TidyFatal\<close>, so never for a dialogue level; the message
  callback is called exactly when it is registered, at every level.
\<close>

theorem legacy_observers_gated_by_severity:
  assumes "tidyMessageCreateInitV ext plat doc node code0 line0 column0 level0 args = Inr (m, log)"
  shows "(ReportFilter \<in> fst ` set log \<longleftrightarrow> reportFilter doc \<noteq> None \<and> level0 \<le> TidyFatal ext) \<and>
         (ReportCallback \<in> fst ` set log \<longleftrightarrow> reportCallback doc \<noteq> None \<and> level0 \<le> TidyFatal ext) \<and>
         (MessageCallback \<in> fst ` set log \<longleftrightarrow> messageCallback doc \<noteq> None)"
proof -
  from assms obtain scan where
    l: "log = snd (dispatch_callbacks ext doc args
                    (compose_record ext doc node code0 line0 column0 level0 args scan))"
    by (rule create_fields)
  have "map fst log =
           (if reportFilter doc \<noteq> None \<and> level0 \<le> TidyFatal ext then [ReportFilter] else []) @
           (if reportCallback doc \<noteq> None \<and> level0 \<le> TidyFatal ext then [ReportCallback] else []) @
           (if messageCallback doc \<noteq> None then [MessageCallback] else [])"
    unfolding l by (simp add: dispatch_log compose_level split: option.splits)
  then have "fst ` set log =
           (if reportFilter doc \<noteq> None \<and> level0 \<le> TidyFatal ext then {ReportFilter} else {}) \<union>
           (if reportCallback doc \<noteq> None \<and> level0 \<le> TidyFatal ext then {ReportCallback} else {}) \<union>
           (if messageCallback doc \<noteq> None then {MessageCallback} else {})"
    by (simp flip: set_map)
  then show ?thesis by simp
qed

theorem legacy_observers_gated_by_severity_witness:
  "\<not> isl (tidyMessageCreateInitV ext_sample plat_lp64 doc_observed None 1 5 10 357 [V_integer 42]) \<and>
   (ReportFilter \<in> fst ` set (snd (projr (tidyMessageCreateInitV ext_sample plat_lp64
        doc_observed None 1 5 10 357 [V_integer 42]))) \<longleftrightarrow>
      reportFilter doc_observed \<noteq> None \<and> (357::nat) \<le> TidyFatal ext_sample) \<and>
   (ReportCallback \<in> fst ` set (snd (projr (tidyMessageCreateInitV ext_sample plat_lp64
        doc_observed None 1 5 10 357 [V_integer 42]))) \<longleftrightarrow>
      reportCallback doc_observed \<noteq> None \<and> (357::nat) \<le> TidyFatal ext_sample) \<and>
   (MessageCallback \<in> fst ` set (snd (projr (tidyMessageCreateInitV ext_sample plat_lp64
        doc_observed None 1 5 10 357 [V_integer 42]))) \<longleftrightarrow>
      messageCallback doc_observed \<noteq> None)"
proof -
  let ?R = "tidyMessageCreateInitV ext_sample plat_lp64 doc_observed None 1 5 10 357 [V_integer 42]"
  have r: "\<not> isl ?R" by code_simp
  then have e: "?R = Inr (fst (projr ?R), snd (projr ?R))" by (cases ?R) simp_all
  from legacy_observers_gated_by_severity [OF e] r show ?thesis by simp
qed

text \<open>
  C7. The composed output of a constructed record, in both locales, by the pattern
  chosen: position, prefix and message for a level up to \<^verbatim>\<open>TidyFatal\<close> with positive
  line and column; prefix and message for such a level when line or column is not
  positive; the message alone for a dialogue level, whatever line and column are. The
  text is what fits the buffer of \<open>sizeMessageBuf\<close> units, as for every rendered string.
\<close>

theorem composed_output_by_pattern:
  assumes "tidyMessageCreateInitV ext plat doc node code0 line0 column0 level0 args = Inr (m, log)"
  shows "(level0 \<le> TidyFatal ext \<and> 0 < line0 \<and> 0 < column0 \<longrightarrow>
            messageOutput m =
              take (sizeMessageBuf - 1) (messagePos m @ messagePrefix m @ message m) \<and>
            messageOutputDefault m =
              take (sizeMessageBuf - 1)
                (messagePosDefault m @ messagePrefixDefault m @ messageDefault m)) \<and>
         (level0 \<le> TidyFatal ext \<and> \<not> (0 < line0 \<and> 0 < column0) \<longrightarrow>
            messageOutput m = take (sizeMessageBuf - 1) (messagePrefix m @ message m) \<and>
            messageOutputDefault m =
              take (sizeMessageBuf - 1) (messagePrefixDefault m @ messageDefault m)) \<and>
         (TidyFatal ext < level0 \<longrightarrow>
            messageOutput m = take (sizeMessageBuf - 1) (message m) \<and>
            messageOutputDefault m = take (sizeMessageBuf - 1) (messageDefault m))"
proof -
  from assms obtain scan where
    m: "m = (compose_record ext doc node code0 line0 column0 level0 args scan)
              \<lparr>allowMessage := list_all snd log\<rparr>"
    by (rule create_fields)
  show ?thesis
    unfolding m
    by (simp add: compose_record_def Let_def tmbsnprintf_def tmbvsnprintf_def
          format_sss format_0ss format_00s)
qed

theorem composed_output_by_pattern_witness:
  "\<not> isl (tidyMessageCreateInitV ext_sample plat_lp64 doc_plain None 4 5 10 351 [V_charp ''x'']) \<and>
   messageOutput (fst (projr (tidyMessageCreateInitV ext_sample plat_lp64 doc_plain None 4 5 10 351
      [V_charp ''x'']))) = ''en: Avis: x'' \<and>
   \<not> isl (tidyMessageCreateInitV ext_sample plat_lp64 doc_plain None 4 0 10 351 [V_charp ''x'']) \<and>
   messageOutput (fst (projr (tidyMessageCreateInitV ext_sample plat_lp64 doc_plain None 4 0 10 351
      [V_charp ''x'']))) = ''Avis: x'' \<and>
   \<not> isl (tidyMessageCreateInitV ext_sample plat_lp64 doc_plain None 4 5 10 357 [V_charp ''x'']) \<and>
   messageOutput (fst (projr (tidyMessageCreateInitV ext_sample plat_lp64 doc_plain None 4 5 10 357
      [V_charp ''x'']))) = ''x''"
proof -
  let ?A = "tidyMessageCreateInitV ext_sample plat_lp64 doc_plain None 4 5 10 351 [V_charp ''x'']"
  let ?B = "tidyMessageCreateInitV ext_sample plat_lp64 doc_plain None 4 0 10 351 [V_charp ''x'']"
  let ?C = "tidyMessageCreateInitV ext_sample plat_lp64 doc_plain None 4 5 10 357 [V_charp ''x'']"
  have a: "\<not> isl ?A" by code_simp
  have b: "\<not> isl ?B" by code_simp
  have c: "\<not> isl ?C" by code_simp
  from a have ea: "?A = Inr (fst (projr ?A), snd (projr ?A))" by (cases ?A) simp_all
  from b have eb: "?B = Inr (fst (projr ?B), snd (projr ?B))" by (cases ?B) simp_all
  from c have ec: "?C = Inr (fst (projr ?C), snd (projr ?C))" by (cases ?C) simp_all
  have fa: "messagePos (fst (projr ?A)) = ''en: '' \<and> messagePrefix (fst (projr ?A)) = ''Avis: ''
            \<and> message (fst (projr ?A)) = ''x''"
    by code_simp
  have fb: "messagePrefix (fst (projr ?B)) = ''Avis: '' \<and> message (fst (projr ?B)) = ''x''"
    by code_simp
  have fc: "message (fst (projr ?C)) = ''x''"
    by code_simp
  have t: "TidyFatal ext_sample = 356" by (simp add: ext_sample_def)
  from composed_output_by_pattern [OF ea] fa t
  have oa: "messageOutput (fst (projr ?A)) = ''en: Avis: x''"
    by (simp add: sizeMessageBuf_def)
  from composed_output_by_pattern [OF eb] fb t
  have ob: "messageOutput (fst (projr ?B)) = ''Avis: x''"
    by (simp add: sizeMessageBuf_def)
  from composed_output_by_pattern [OF ec] fc t
  have oc: "messageOutput (fst (projr ?C)) = ''x''"
    by (simp add: sizeMessageBuf_def)
  from a b c oa ob oc show ?thesis by simp
qed

text \<open>
  C8. In every construction that returns a record, each callback that is registered
  and eligible (the two legacy ones for a level up to \<^verbatim>\<open>TidyFatal\<close>, the message
  callback at every level) is called once, in the fixed order and whatever the
  callbacks before it returned: the filter with the level, line, column and composed
  output of the record, the key callback with the level, line, column, the message
  key and the arguments, the message callback with the record as it stands at that
  point, whose \<^verbatim>\<open>allowMessage\<close> is the conjunction of the legacy verdicts. Below,
  \<open>v1\<close>, \<open>v2\<close> and \<open>v3\<close> hold the value each callback returned (empty when it is not
  called); \<open>log\<close> is the sequence of the calls made, and \<^verbatim>\<open>allowMessage\<close> of the
  record returned is the conjunction of all values returned, true when no callback is
  called.
\<close>

theorem allowed_is_and_of_invoked_verdicts:
  assumes "tidyMessageCreateInitV ext plat doc node code0 line0 column0 level0 args = Inr (m, log)"
  shows "let v1 = (case reportFilter doc of
                     Some filt \<Rightarrow> if level0 \<le> TidyFatal ext
                                  then [filt level0 line0 column0 (messageOutput m)] else []
                   | None \<Rightarrow> []);
             v2 = (case reportCallback doc of
                     Some cb \<Rightarrow> if level0 \<le> TidyFatal ext
                                then [cb level0 line0 column0 (messageKey m) args] else []
                   | None \<Rightarrow> []);
             v3 = (case messageCallback doc of
                     Some cb \<Rightarrow> [cb (m\<lparr>allowMessage := list_all id (v1 @ v2)\<rparr>)]
                   | None \<Rightarrow> [])
         in log = map (Pair ReportFilter) v1 @ map (Pair ReportCallback) v2 @
                  map (Pair MessageCallback) v3 \<and>
            allowMessage m = list_all id (v1 @ v2 @ v3)"
proof -
  from create_Inr [OF assms] obtain scan where
    d: "dispatch_callbacks ext doc args
          (compose_record ext doc node code0 line0 column0 level0 args scan) = (m, log)"
    by blast
  define r where "r = compose_record ext doc node code0 line0 column0 level0 args scan"
  have f: "level r = level0" "line r = line0" "column r = column0" "allowMessage r"
    by (simp_all add: r_def compose_level compose_line compose_column compose_allow)
  from f(4) have rr: "r\<lparr>allowMessage := True\<rparr> = r" by simp
  from d have "dispatch_callbacks ext doc args r = (m, log)" by (simp add: r_def)
  with f show ?thesis
    by (auto simp: dispatch_callbacks_def Let_def rr split: option.splits if_splits)
qed

theorem allowed_is_and_of_invoked_verdicts_witness:
  "\<not> isl (tidyMessageCreateInitV ext_sample plat_lp64 doc_judging None 4 5 10 351 [V_charp ''x'']) \<and>
   snd (projr (tidyMessageCreateInitV ext_sample plat_lp64 doc_judging None 4 5 10 351
                 [V_charp ''x''])) =
     [(ReportFilter, False), (ReportCallback, True), (MessageCallback, True)] \<and>
   \<not> allowMessage (fst (projr (tidyMessageCreateInitV ext_sample plat_lp64 doc_judging None 4 5 10
                                351 [V_charp ''x''])))"
proof -
  let ?R = "tidyMessageCreateInitV ext_sample plat_lp64 doc_judging None 4 5 10 351 [V_charp ''x'']"
  have r: "\<not> isl ?R" by code_simp
  then have e: "?R = Inr (fst (projr ?R), snd (projr ?R))" by (cases ?R) simp_all
  have o: "messageOutput (fst (projr ?R)) = ''en: Avis: x''" by code_simp
  have k: "messageKey (fst (projr ?R)) = ''KEY''" by code_simp
  have t: "TidyFatal ext_sample = 356" by (simp add: ext_sample_def)
  from allowed_is_and_of_invoked_verdicts [OF e] r o k t show ?thesis
    by (simp add: doc_judging_def Let_def)
qed

section \<open>Properties of the argument getters\<close>

text \<open>
  C4. Claimed: a stored integer narrower than \<^verbatim>\<open>int\<close> can be read through the
  \<^verbatim>\<open>int\<close> getter. The record built from \<^verbatim>\<open>"%hd"\<close> with the argument 7 holds one
  16-bit descriptor with the value 7; with a 4-byte \<^verbatim>\<open>int\<close> the test
  \<^verbatim>\<open>sizeof(int) <= sizeof(int16_t)\<close> of \<^verbatim>\<open>getArgValueInt\<close> is false and the final
  assertion fails.
\<close>

theorem int_getter_rejects_stored_int16:
  "(case tidyMessageCreateInitV ext_sample plat_lp64 doc_plain None 2 0 0 351 [V_integer 7] of
      Inl e \<Rightarrow> Inl e
    | Inr (m, log) \<Rightarrow>
        Inr (getArgType m 0, map_option (map u) (arguments m), getArgValueInt plat_lp64 m 0)) =
   Inr (Inr tidyFormatType_INT16, Some [U_i 7], Inl AssertionFailed)"
  by code_simp

text \<open>
  C5. Claimed: a getter called with an index outside the array fails its assertion.
  The record built from \<^verbatim>\<open>"%d"\<close> with the argument 5 has \<^verbatim>\<open>argcount\<close> 1 and a
  one-element array; at index 1 the test \<^verbatim>\<open>argNum <= message.argcount\<close> of each of
  the six getters passes and the element access lies outside the array.
\<close>

theorem getters_accept_index_argcount:
  "(case tidyMessageCreateInitV ext_sample plat_lp64 doc_plain None 1 0 0 351 [V_integer 5] of
      Inl e \<Rightarrow> Inl e
    | Inr (m, log) \<Rightarrow>
        Inr (argcount m, getArgType m 1, getArgFormat m 1, getArgValueString m 1,
             getArgValueUInt plat_lp64 m 1, getArgValueInt plat_lp64 m 1,
             getArgValueDouble m 1)) =
   Inr (1, Inl IndexOutOfRange, Inl IndexOutOfRange, Inl IndexOutOfRange,
        Inl IndexOutOfRange, Inl IndexOutOfRange, Inl IndexOutOfRange)"
  by code_simp

section \<open>Properties of the scanner\<close>

text \<open>
  C1. Let a format string be built from literal characters, \<^verbatim>\<open>%%\<close> escapes and N
  supported specifiers, on a platform whose \<^verbatim>\<open>size_t\<close> is as wide as a pointer, with
  an allocator that gives memory and an argument list that supplies a value of the
  right class for each specifier. Then \<^verbatim>\<open>BuildArgArray\<close> returns with \<^verbatim>\<open>*rv = N\<close> and
  N descriptors (no array when N is 0); the kinds of the descriptors are, in order,
  those of the mapping table for the specifiers from left to right, and apart from
  the values stored each descriptor is the expected one: the offset, the length and
  the text of its specifier.
\<close>

theorem supported_specifiers_are_classified:
  assumes "list_all (supported_item plat) items"
    and "sizeof_size_t plat = sizeof_voidp plat"
    and "alloc_ok doc"
    and "arguments_match (map (table_kind plat) (specifiers_of items)) ap"
  shows "\<exists>r. BuildArgArray plat doc (format_text items) ap = Inr r \<and>
           rv r = int (length (specifiers_of items)) \<and>
           length (case returned r of None \<Rightarrow> [] | Some nas \<Rightarrow> nas) =
             length (specifiers_of items) \<and>
           map type (case returned r of None \<Rightarrow> [] | Some nas \<Rightarrow> nas) =
             map (table_kind plat) (specifiers_of items) \<and>
           map (\<lambda>a. a\<lparr>u := U_none\<rparr>) (case returned r of None \<Rightarrow> [] | Some nas \<Rightarrow> nas) =
             expected_descriptors plat 0 items"
proof -
  define N where "N = length (specifiers_of items)"
  define fmt where "fmt = format_text items"
  from count_format_text [OF assms(1)] have
    cs: "count_specifiers fmt = N" and nd: "\<not> dangling_percent fmt" and nn: "NUL \<notin> set fmt"
    by (simp_all add: fmt_def N_def)
  from count_loop_eq [OF nn, of 0 fmt 0] nd cs
  have c: "count_loop fmt 0 0 = Inr (int N)" by simp
  have ek: "map type (expected_descriptors plat 0 items) = map (table_kind plat) (specifiers_of items)"
    by (rule expected_kinds)
  then have el: "length (expected_descriptors plat 0 items) = N"
    unfolding N_def by (metis length_map)
  show ?thesis
  proof (cases "N = 0")
    case True
    with el have "expected_descriptors plat 0 items = []" by simp
    with c True show ?thesis
      by (simp add: BuildArgArray_def fmt_def N_def)
  next
    case False
    from classify_loop_valid [OF assms(2) assms(1), of N "[]" "[]"]
    have k: "classify_loop plat fmt 0 (- 1) (replicate N fresh_arg) =
               Inr (0, expected_descriptors plat 0 items)"
      by (simp add: fmt_def N_def)
    let ?E = "expected_descriptors plat 0 items"
    from assms(4) ek have am: "arguments_match (map type (drop 0 ?E)) ap" by simp
    from supported_kinds [OF assms(1), of 0] have
      sk: "\<forall>a \<in> set (drop 0 ?E). type a \<noteq> tidyFormatType_UNKNOWN \<and> type a \<noteq> tidyFormatType_WSTRING"
      by simp
    from consume_loop_ok [OF _ am sk, of plat] el obtain nas' where
      co: "consume_loop plat ?E 0 (int N) ap = Inr (Some nas')" and
      eq: "map (\<lambda>a. a\<lparr>u := U_none\<rparr>) nas' = map (\<lambda>a. a\<lparr>u := U_none\<rparr>) ?E"
      by auto
    from eq have eq': "map (\<lambda>a. a\<lparr>u := U_none\<rparr>) nas' = ?E" by (simp add: expected_u)
    then have ln: "length nas' = N" using el by (metis length_map)
    have "map type nas' = map type (map (\<lambda>a. a\<lparr>u := U_none\<rparr>) nas')" by (simp add: comp_def)
    with eq' ek have ty: "map type nas' = map (table_kind plat) (specifiers_of items)" by simp
    from c False assms(3) k co
    have "BuildArgArray plat doc fmt ap =
            Inr \<lparr>returned = Some nas', rv = int N, heap_log = [Allocated N]\<rparr>"
      by (simp add: BuildArgArray_def)
    with ln ty eq' show ?thesis by (simp add: fmt_def N_def)
  qed
qed

theorem supported_specifiers_are_classified_witness:
  "list_all (supported_item plat_lp64) sample_items \<and>
   sizeof_size_t plat_lp64 = sizeof_voidp plat_lp64 \<and> alloc_ok doc_plain \<and>
   arguments_match (map (table_kind plat_lp64) (specifiers_of sample_items))
     [V_integer 42, V_charp ''hello''] \<and>
   format_text sample_items = ''%d and %5.2lls'' \<and>
   (\<exists>r. BuildArgArray plat_lp64 doc_plain ''%d and %5.2lls'' [V_integer 42, V_charp ''hello''] =
          Inr r \<and>
        rv r = 2 \<and>
        map type (case returned r of None \<Rightarrow> [] | Some nas \<Rightarrow> nas) =
          [tidyFormatType_INTN, tidyFormatType_STRING])"
proof -
  have a: "list_all (supported_item plat_lp64) sample_items" by code_simp
  have b: "sizeof_size_t plat_lp64 = sizeof_voidp plat_lp64" by (simp add: plat_lp64_def)
  have c: "alloc_ok doc_plain" by (simp add: doc_plain_def)
  have k: "map (table_kind plat_lp64) (specifiers_of sample_items) =
             [tidyFormatType_INTN, tidyFormatType_STRING]"
    by code_simp
  have d: "arguments_match (map (table_kind plat_lp64) (specifiers_of sample_items))
             [V_integer 42, V_charp ''hello'']"
    unfolding k by (simp add: class_matches_def)
  have t: "format_text sample_items = ''%d and %5.2lls''" by code_simp
  from k have n: "length (specifiers_of sample_items) = 2" by (metis length_map length_Cons list.size(3) numeral_2_eq_2)
  from supported_specifiers_are_classified [OF a b c d]
  have "\<exists>r. BuildArgArray plat_lp64 doc_plain ''%d and %5.2lls''
              [V_integer 42, V_charp ''hello''] = Inr r \<and>
            rv r = 2 \<and>
            map type (case returned r of None \<Rightarrow> [] | Some nas \<Rightarrow> nas) =
              [tidyFormatType_INTN, tidyFormatType_STRING]"
    by (auto simp: t k n)
  with a b c d t show ?thesis by simp
qed

text \<open>
  C9. A format string without NUL in which every \<^verbatim>\<open>%\<close> belongs to a \<^verbatim>\<open>%%\<close>
  escape (the empty string among them) is scanned to \<^verbatim>\<open>NULL\<close> with \<^verbatim>\<open>*rv = 0\<close> and
  no allocation: no descriptors and count zero, which is not the failure result
  (\<^verbatim>\<open>NULL\<close> with -1).
\<close>

theorem only_escapes_gives_zero_arguments:
  assumes "NUL \<notin> set fmt" and "only_escapes fmt"
  shows "BuildArgArray plat doc fmt ap = Inr \<lparr>returned = None, rv = 0, heap_log = []\<rparr> \<and>
         BuildArgArray plat doc fmt ap \<noteq> Inr \<lparr>returned = None, rv = - 1, heap_log = h\<rparr>"
proof -
  from only_escapes_closed [OF assms(2)]
  have "\<not> dangling_percent fmt" "count_specifiers fmt = 0" by simp_all
  with count_loop_eq [OF assms(1), of 0 fmt 0] have "count_loop fmt 0 0 = Inr 0" by simp
  then show ?thesis by (simp add: BuildArgArray_def)
qed

theorem only_escapes_gives_zero_arguments_witness:
  "NUL \<notin> set ''100%% done'' \<and> only_escapes ''100%% done'' \<and>
   BuildArgArray plat_lp64 doc_plain ''100%% done'' [] =
     Inr \<lparr>returned = None, rv = 0, heap_log = []\<rparr>"
proof -
  have n: "NUL \<notin> set ''100%% done''" by (simp add: NUL_def)
  have e: "only_escapes ''100%% done''" by simp
  from only_escapes_gives_zero_arguments [OF n e] n e show ?thesis by simp
qed

text \<open>
  C10. Claimed: for a format string that ends in a dangling \<^verbatim>\<open>%\<close> the character
  reads of the classify pass go beyond the end of the string. For \<^verbatim>\<open>"50%"\<close> the
  read outside the string is made by the first loop, and \<^verbatim>\<open>BuildArgArray\<close> is
  undefined because of it. The second loop, run on the same string with the
  one-element array that the count calls for, returns: it takes the terminator at
  offset 3 for the conversion character, records a span of two characters and stops
  with \<^verbatim>\<open>*rv = -1\<close>. It reads nothing behind the terminator (such a read is the
  fault \<open>ReadPastEnd\<close>).
\<close>

theorem classify_pass_stays_inside_at_trailing_percent:
  "BuildArgArray plat_lp64 doc_plain ''50%'' [] = Inl ReadPastEnd \<and>
   count_loop ''50%'' 0 0 = Inl ReadPastEnd \<and>
   classify_loop plat_lp64 ''50%'' 0 (- 1) [fresh_arg] =
     Inr (- 1, [\<lparr>type = tidyFormatType_UNKNOWN, formatStart = 2, formatLength = 2,
                 format = [CHR ''%'', NUL], u = U_none\<rparr>])"
  by code_simp

text \<open>
  C10, as the code has it: for a format string without NUL that ends in a dangling
  \<^verbatim>\<open>%\<close>, the first loop at the final \<^verbatim>\<open>%\<close> takes the terminator for the
  character behind it, counts a specifier and moves its read position to offset
  \<open>length fmt + 1\<close>; after some number of rounds from the start it stands there with
  every specifier counted, the final \<^verbatim>\<open>%\<close> among them. Its next read lies outside
  the string, so the loop and with it \<^verbatim>\<open>BuildArgArray\<close> are undefined there. The
  second loop reads no character outside the string: with an array that has room for
  the specifiers counted it ends with \<^verbatim>\<open>*rv = -1\<close>, and entered at the final
  \<^verbatim>\<open>%\<close> it takes the terminator for the conversion character, stores the \<^verbatim>\<open>%\<close>
  and one NUL as the text and a span of two characters, and stops.
\<close>

theorem count_pass_reads_past_trailing_percent:
  assumes "NUL \<notin> set fmt" and "dangling_percent fmt"
  shows "count_step fmt (length fmt - 1) k = Inr (Some (length fmt + 1, k + 1)) \<and>
         (\<exists>n. count_iter n fmt 0 0 =
                Inr (Some (length fmt + 1, int (count_specifiers fmt)))) \<and>
         count_step fmt (length fmt + 1) k = Inl ReadPastEnd \<and>
         count_loop fmt 0 0 = Inl ReadPastEnd \<and>
         BuildArgArray plat doc fmt ap = Inl ReadPastEnd \<and>
         (int (count_specifiers fmt) \<le> int (length nas) \<longrightarrow>
            (\<exists>nas'. classify_loop plat fmt 0 (- 1) nas = Inr (- 1, nas'))) \<and>
         (0 \<le> cn + 1 \<and> cn + 1 < int (length nas) \<longrightarrow>
            classify_loop plat fmt (length fmt - 1) cn nas =
              Inr (- 1, nas[nat (cn + 1) := (nas ! nat (cn + 1))
                     \<lparr>type := tidyFormatType_UNKNOWN, formatStart := int (length fmt) - 1,
                      formatLength := 2, format := [CHR ''%'', NUL]\<rparr>]))"
proof -
  from dangling_percent_last [OF assms(2)] have ne: "fmt \<noteq> []" and la: "last fmt = CHR ''%''"
    by simp_all
  from ne obtain n where len: "length fmt = Suc n" by (cases fmt) simp_all
  from count_loop_eq [OF assms(1), of 0 fmt 0] assms(2)
  have c: "count_loop fmt 0 0 = Inl ReadPastEnd" by simp
  then have b: "BuildArgArray plat doc fmt ap = Inl ReadPastEnd"
    by (simp add: BuildArgArray_def)
  from ne len la have "fmt ! n = CHR ''%''" by (simp add: last_conv_nth)
  with len have d1: "deref fmt n = Inr (CHR ''%'')" by (simp add: deref_def)
  from len have d2: "deref fmt (Suc n) = Inr NUL" by (simp add: deref_def)
  have k: "count_step fmt n k = Inr (Some (Suc (Suc n), k + 1))"
    by (simp add: count_step_def d1 d2)
  from len have p: "count_step fmt (Suc (Suc n)) k = Inl ReadPastEnd"
    by (simp add: count_step_def deref_def)
  from count_iter_dangling [OF assms(1), of 0 fmt 0] assms(2)
  have i: "\<exists>m. count_iter m fmt 0 0 = Inr (Some (length fmt + 1, int (count_specifiers fmt)))"
    by simp
  have w: "\<exists>nas'. classify_loop plat fmt 0 (- 1) nas = Inr (- 1, nas')"
    if "int (count_specifiers fmt) \<le> int (length nas)"
    using classify_dangling [OF assms(1), of 0 "- 1" nas plat] assms(2) that by simp
  have q: "classify_loop plat fmt n cn nas =
              Inr (- 1, nas[nat (cn + 1) := (nas ! nat (cn + 1))
                     \<lparr>type := tidyFormatType_UNKNOWN, formatStart := int n,
                      formatLength := 2, format := [CHR ''%'', NUL]\<rparr>])"
    if a1: "0 \<le> cn + 1" and a2: "cn + 1 < int (length nas)"
    by (subst classify_loop.simps)
       (simp add: d1 d2 classify_spec_at_terminator [OF a1 a2 len la])
  from b c k p i w q show ?thesis by (simp add: len)
qed

theorem count_pass_reads_past_trailing_percent_witness:
  "NUL \<notin> set ''50%'' \<and> dangling_percent ''50%'' \<and>
   count_step ''50%'' 2 0 = Inr (Some (4, 1)) \<and>
   count_step ''50%'' 4 1 = Inl ReadPastEnd \<and>
   BuildArgArray plat_lp64 doc_plain ''50%'' [] = Inl ReadPastEnd \<and>
   classify_loop plat_lp64 ''50%'' 2 (- 1) [fresh_arg] =
     Inr (- 1, [\<lparr>type = tidyFormatType_UNKNOWN, formatStart = 2, formatLength = 2,
                 format = [CHR ''%'', NUL], u = U_none\<rparr>])"
proof -
  have n: "NUL \<notin> set ''50%''" by (simp add: NUL_def)
  have o: "dangling_percent ''50%''" by simp
  have i: "(0::int) \<le> - 1 + 1 \<and> - 1 + 1 < int (length [fresh_arg])" by simp
  from count_pass_reads_past_trailing_percent
         [OF n o, where plat = plat_lp64 and doc = doc_plain and ap = "[]" and cn = "- 1"
            and nas = "[fresh_arg]" and k = 0]
  have a: "count_step ''50%'' 2 0 = Inr (Some (4, 1))"
    and b: "BuildArgArray plat_lp64 doc_plain ''50%'' [] = Inl ReadPastEnd"
    and c: "classify_loop plat_lp64 ''50%'' 2 (- 1) [fresh_arg] =
              Inr (- 1, [\<lparr>type = tidyFormatType_UNKNOWN, formatStart = 2, formatLength = 2,
                          format = [CHR ''%'', NUL], u = U_none\<rparr>])"
    using i by (simp_all add: fresh_arg_def numeral_eq_Suc)
  from count_pass_reads_past_trailing_percent [OF n o, where k = 1]
  have d: "count_step ''50%'' 4 1 = Inl ReadPastEnd"
    by (simp add: numeral_eq_Suc)
  from n o a b c d show ?thesis by simp
qed

text \<open>
  C2. A format string without NUL and without a dangling final \<^verbatim>\<open>%\<close> (for those the
  scan is undefined, see C10) in which some specifier gives its width or precision as
  \<^verbatim>\<open>*\<close> is scanned to the failure result: \<^verbatim>\<open>NULL\<close> with \<^verbatim>\<open>*rv = -1\<close>. The array
  allocated for the specifiers counted is freed before the return; when the allocator
  gives no memory there is nothing to free.
\<close>

theorem dynamic_width_or_precision_fails:
  assumes "NUL \<notin> set fmt" and "\<not> dangling_percent fmt" and "has_dynamic_spec fmt"
  shows "BuildArgArray plat doc fmt ap =
           Inr \<lparr>returned = None, rv = - 1,
                heap_log = (if alloc_ok doc then [Allocated (count_specifiers fmt), Freed] else [])\<rparr>"
proof -
  from count_loop_eq [OF assms(1), of 0 fmt 0] assms(2)
  have c: "count_loop fmt 0 0 = Inr (int (count_specifiers fmt))" by simp
  from has_dynamic_spec_count_specifiers [OF assms(3)] have n: "0 < count_specifiers fmt" .
  show ?thesis
  proof (cases "alloc_ok doc")
    case False
    with c n show ?thesis by (simp add: BuildArgArray_def)
  next
    case True
    from classify_dynamic [OF assms(1), of 0 "- 1" "replicate (count_specifiers fmt) fresh_arg" plat]
      assms(2,3)
    obtain nas' where
      "classify_loop plat fmt 0 (- 1) (replicate (count_specifiers fmt) fresh_arg) = Inr (- 1, nas')"
      by auto
    with c n True show ?thesis by (simp add: BuildArgArray_def)
  qed
qed

theorem dynamic_width_or_precision_fails_witness:
  "NUL \<notin> set ''%d %5.*f'' \<and> \<not> dangling_percent ''%d %5.*f'' \<and> has_dynamic_spec ''%d %5.*f'' \<and>
   BuildArgArray plat_lp64 doc_plain ''%d %5.*f'' [V_integer 1, V_integer 2, V_double 3] =
     Inr \<lparr>returned = None, rv = - 1, heap_log = [Allocated 2, Freed]\<rparr>"
proof -
  have n: "NUL \<notin> set ''%d %5.*f''" by (simp add: NUL_def)
  have d: "\<not> dangling_percent ''%d %5.*f''" by simp
  have s: "has_dynamic_spec ''%d %5.*f''" by (simp add: dynamic_spec_def directive_char_def)
  have a: "alloc_ok doc_plain" by (simp add: doc_plain_def)
  from dynamic_width_or_precision_fails [OF n d s, of plat_lp64 doc_plain] n d s a
  show ?thesis by simp
qed



end
